theory Spec2Isabelle
  imports Main "HOL-Library.Signed_Division" "HOL-Library.Multiset"
begin

section \<open>The falling-block game of tower/main.go\<close>

text \<open>
  A shallow embedding of the game core of \<^verbatim>\<open>tower/main.go\<close>. Go's \<^verbatim>\<open>int\<close> has 64 bits
  and its arithmetic wraps around. The values are modelled in \<^typ>\<open>int\<close>. The coordinates,
  the kinds and the frame counter stay far inside the range in every call the program
  makes. The game adds to \<^verbatim>\<open>lines\<close> and \<^verbatim>\<open>score\<close> without a bound, so the sums and the product
  of the scoring block are written with the wrap-around \<open>wrap64\<close>. Go's \<^verbatim>\<open>/\<close> and \<^verbatim>\<open>%\<close>
  truncate towards zero; they are \<open>sdiv\<close> and \<open>smod\<close>. A run-time panic (an index out of
  range) is the error value \<open>IndexOutOfRange\<close>; a function that can panic returns
  \<open>error + 'a\<close>.
\<close>

subsection \<open>Constants and data\<close>

definition boardW :: int where
  "boardW = 10"

definition boardH :: int where
  "boardH = 20"

definition logicalW :: int where
  "logicalW = 480"

definition logicalH :: int where
  "logicalH = 640"

text \<open>The value a 64-bit signed integer holds after an operation whose exact result is \<open>v\<close>.\<close>

definition wrap64 :: "int \<Rightarrow> int" where
  "wrap64 v = (v + 2 ^ 63) mod 2 ^ 64 - 2 ^ 63"

datatype error = IndexOutOfRange

text \<open>\<^verbatim>\<open>type point struct { x, y int }\<close>; the fields are named \<open>px\<close> and \<open>py\<close> here.\<close>

datatype point = P (px: int) (py: int)

text \<open>\<^verbatim>\<open>pieceShapes[kind][rot]\<close>: the cells of a piece in a 4x4 bounding box.\<close>

definition pieceShapes :: "point list list list" where
  "pieceShapes = [
    [[P 0 1, P 1 1, P 2 1, P 3 1],
     [P 2 0, P 2 1, P 2 2, P 2 3],
     [P 0 2, P 1 2, P 2 2, P 3 2],
     [P 1 0, P 1 1, P 1 2, P 1 3]],
    [[P 1 1, P 2 1, P 1 2, P 2 2],
     [P 1 1, P 2 1, P 1 2, P 2 2],
     [P 1 1, P 2 1, P 1 2, P 2 2],
     [P 1 1, P 2 1, P 1 2, P 2 2]],
    [[P 1 0, P 0 1, P 1 1, P 2 1],
     [P 1 0, P 1 1, P 2 1, P 1 2],
     [P 0 1, P 1 1, P 2 1, P 1 2],
     [P 1 0, P 0 1, P 1 1, P 1 2]],
    [[P 1 0, P 2 0, P 0 1, P 1 1],
     [P 1 0, P 1 1, P 2 1, P 2 2],
     [P 1 1, P 2 1, P 0 2, P 1 2],
     [P 0 0, P 0 1, P 1 1, P 1 2]],
    [[P 0 0, P 1 0, P 1 1, P 2 1],
     [P 2 0, P 1 1, P 2 1, P 1 2],
     [P 0 1, P 1 1, P 1 2, P 2 2],
     [P 1 0, P 0 1, P 1 1, P 0 2]],
    [[P 0 0, P 0 1, P 1 1, P 2 1],
     [P 1 0, P 2 0, P 1 1, P 1 2],
     [P 0 1, P 1 1, P 2 1, P 2 2],
     [P 1 0, P 1 1, P 0 2, P 1 2]],
    [[P 2 0, P 0 1, P 1 1, P 2 1],
     [P 1 0, P 1 1, P 1 2, P 2 2],
     [P 0 1, P 1 1, P 2 1, P 0 2],
     [P 0 0, P 1 0, P 1 1, P 1 2]]]"

text \<open>
  Indexing the table of type \<^verbatim>\<open>[7][4][]point\<close>: Go panics when \<open>k\<close> is outside \<open>0..6\<close> or
  \<open>r\<close> outside \<open>0..3\<close>.
\<close>

definition shapeAt :: "int \<Rightarrow> int \<Rightarrow> error + point list" where
  "shapeAt k r =
     (if 0 \<le> k \<and> k < 7 \<and> 0 \<le> r \<and> r < 4 then Inr (pieceShapes ! nat k ! nat r)
      else Inl IndexOutOfRange)"

text \<open>\<^verbatim>\<open>type activePiece struct { kind, rot, x, y int }\<close>; \<open>x\<close> and \<open>y\<close> are \<open>ax\<close> and \<open>ay\<close>.\<close>

record activePiece =
  kind :: int
  rot :: int
  ax :: int
  ay :: int

text \<open>
  The random source \<^verbatim>\<open>*rand.Rand\<close> belongs to Go's standard library. It is modelled as the
  infinite sequence of raw values it will produce: any sequence may be injected.
\<close>

type_synonym rand = "nat \<Rightarrow> nat"

text \<open>A source for examples: it produces \<open>0, 0, 0, ...\<close>.\<close>

definition zeroRng :: rand where
  "zeroRng n = 0"

text \<open>
  \<^verbatim>\<open>type Game struct\<close>. The board \<^verbatim>\<open>[boardH][boardW]int\<close> is a list of rows; a board of the Go
  type has \<open>boardH\<close> rows of \<open>boardW\<close> cells (\<open>wf_board\<close> below).
\<close>

record game =
  board :: "int list list"
  cur :: activePiece
  nextKind :: int
  bag :: "int list"
  rng :: rand
  score :: int
  lines :: int
  level :: int
  dropFrameCounter :: int
  gameOver :: bool

definition wf_board :: "int list list \<Rightarrow> bool" where
  "wf_board b = (length b = nat boardH \<and> list_all (\<lambda>row. length row = nat boardW) b)"

text \<open>Sequencing of computations that may panic.\<close>

definition bindE :: "error + 'a \<Rightarrow> ('a \<Rightarrow> error + 'b) \<Rightarrow> error + 'b" where
  "bindE m f = (case m of Inl e \<Rightarrow> Inl e | Inr v \<Rightarrow> f v)"

subsection \<open>Cells of a piece and collision\<close>

definition pieceCells :: "activePiece \<Rightarrow> error + point list" where
  "pieceCells ap =
     bindE (shapeAt (kind ap) (rot ap))
       (\<lambda>src. Inr (map (\<lambda>p. P (ax ap + px p) (ay ap + py p)) src))"

text \<open>The loop of \<^verbatim>\<open>collides\<close> over the cells, with its two early returns.\<close>

fun collidesCells :: "int list list \<Rightarrow> point list \<Rightarrow> bool" where
  "collidesCells b [] = False"
| "collidesCells b (p # ps) =
     (if px p < 0 \<or> px p \<ge> boardW \<or> py p \<ge> boardH then True
      else if py p \<ge> 0 \<and> b ! nat (py p) ! nat (px p) \<noteq> 0 then True
      else collidesCells b ps)"

definition collides :: "game \<Rightarrow> activePiece \<Rightarrow> error + bool" where
  "collides g ap = bindE (pieceCells ap) (\<lambda>cs. Inr (collidesCells (board g) cs))"

subsection \<open>The 7-bag randomizer\<close>

text \<open>
  \<^verbatim>\<open>rng.Shuffle(n, swap)\<close> of Go's \<^verbatim>\<open>math/rand\<close> is a Fisher-Yates shuffle: for \<open>i\<close> from
  \<open>n - 1\<close> down to \<open>1\<close> it draws \<open>j\<close> in \<open>[0, i]\<close> and calls \<open>swap(i, j)\<close>. How the library
  turns its random bits into \<open>j\<close> is not part of the game: the source is read as the
  sequence of the draws, the next value reduced into \<open>[0, i]\<close>, so that every sequence of
  draws the library can make is one source. The swap is the closure of \<^verbatim>\<open>popBag\<close>.
\<close>

definition swapBag :: "int list \<Rightarrow> nat \<Rightarrow> nat \<Rightarrow> int list" where
  "swapBag xs i j = xs[i := xs ! j, j := xs ! i]"

primrec shuffleLoop :: "nat \<Rightarrow> int list \<Rightarrow> rand \<Rightarrow> int list \<times> rand" where
  "shuffleLoop 0 xs r = (xs, r)"
| "shuffleLoop (Suc i) xs r =
     (let j = r 0 mod (Suc i + 1) in shuffleLoop i (swapBag xs (Suc i) j) (\<lambda>n. r (Suc n)))"

definition Shuffle :: "int list \<Rightarrow> rand \<Rightarrow> int list \<times> rand" where
  "Shuffle xs r = shuffleLoop (length xs - 1) xs r"

text \<open>\<^verbatim>\<open>popBag\<close>: \<^verbatim>\<open>g.bag[0]\<close> panics on an empty slice.\<close>

definition popBag :: "game \<Rightarrow> error + (int \<times> game)" where
  "popBag g =
     (let g1 = (if length (bag g) = 0
                then (case Shuffle [0, 1, 2, 3, 4, 5, 6] (rng g) of
                        (b, r) \<Rightarrow> g\<lparr>bag := b, rng := r\<rparr>)
                else g)
      in case bag g1 of
           [] \<Rightarrow> Inl IndexOutOfRange
         | v # rest \<Rightarrow> Inr (v, g1\<lparr>bag := rest\<rparr>))"

subsection \<open>Spawning and the fresh game\<close>

definition spawn :: "game \<Rightarrow> error + game" where
  "spawn g =
     (let g1 = g\<lparr>cur := \<lparr>kind = nextKind g, rot = 0, ax = 3, ay = 0\<rparr>\<rparr>
      in bindE (popBag g1) (\<lambda>(v, g2).
           let g3 = g2\<lparr>nextKind := v\<rparr>
           in bindE (collides g3 (cur g3)) (\<lambda>c.
                Inr (if c then g3\<lparr>gameOver := True\<rparr> else g3))))"

text \<open>The struct literal \<^verbatim>\<open>&Game{rng: r}\<close>: every other field has its zero value.\<close>

definition zeroGame :: "rand \<Rightarrow> game" where
  "zeroGame r =
     \<lparr>board = replicate (nat boardH) (replicate (nat boardW) 0),
      cur = \<lparr>kind = 0, rot = 0, ax = 0, ay = 0\<rparr>,
      nextKind = 0, bag = [], rng = r, score = 0, lines = 0, level = 0,
      dropFrameCounter = 0, gameOver = False\<rparr>"

text \<open>\<^verbatim>\<open>NewGame\<close>; the source seeded from the clock is the parameter \<open>r\<close>.\<close>

definition NewGame :: "rand \<Rightarrow> error + game" where
  "NewGame r =
     bindE (popBag (zeroGame r)) (\<lambda>(v, g1). spawn (g1\<lparr>nextKind := v\<rparr>))"

subsection \<open>Clearing lines and scoring\<close>

text \<open>The inner loop of \<^verbatim>\<open>clearLines\<close> over the columns of a row, with its \<^verbatim>\<open>break\<close>.\<close>

fun rowFullAt :: "int list \<Rightarrow> nat list \<Rightarrow> bool" where
  "rowFullAt row [] = True"
| "rowFullAt row (x # xs) = (if row ! x = 0 then False else rowFullAt row xs)"

definition rowFull :: "int list \<Rightarrow> bool" where
  "rowFull row = rowFullAt row [0..<nat boardW]"

text \<open>The outer loop over the rows: the rows kept so far and the count of cleared rows.\<close>

fun scanRows :: "int list list \<Rightarrow> nat list \<Rightarrow> int list list \<times> int \<Rightarrow> int list list \<times> int" where
  "scanRows b [] acc = acc"
| "scanRows b (y # ys) (newRows, cleared) =
     (if rowFull (b ! y) then scanRows b ys (newRows, cleared + 1)
      else scanRows b ys (newRows @ [b ! y], cleared))"

text \<open>\<^verbatim>\<open>for len(newRows) < boardH\<close>: an empty row is put in front.\<close>

function padRows :: "int list list \<Rightarrow> int list list" where
  "padRows newRows =
     (if int (length newRows) < boardH then padRows (replicate (nat boardW) 0 # newRows)
      else newRows)"
  by pat_completeness auto
termination
  by (relation "measure (\<lambda>rs. nat boardH - length rs)") (auto simp: boardH_def)

declare padRows.simps [simp del]

text \<open>
  The first three loops of \<^verbatim>\<open>clearLines\<close> (lines 187 to 208): the new board and the local
  \<^verbatim>\<open>cleared\<close>.
\<close>

definition clearRows :: "int list list \<Rightarrow> int list list \<times> int" where
  "clearRows b =
     (case scanRows b [0..<nat boardH] ([], 0) of
        (newRows, cleared) \<Rightarrow>
          (let padded = padRows newRows
           in (map (\<lambda>y. padded ! y) [0..<nat boardH], cleared)))"

definition scoreTable :: "int list" where
  "scoreTable = [0, 40, 100, 300, 1200]"

text \<open>The scoring block of \<^verbatim>\<open>clearLines\<close> (lines 209 to 216), for the local \<^verbatim>\<open>cleared\<close>.\<close>

definition scoreUpdate :: "int \<Rightarrow> game \<Rightarrow> game" where
  "scoreUpdate cleared g =
     (if cleared > 0 then
        (let g1 = g\<lparr>lines := wrap64 (lines g + cleared)\<rparr>;
             g2 = g1\<lparr>level := lines g1 sdiv 10\<rparr>
         in if cleared \<ge> 0 \<and> cleared \<le> 4
            then g2\<lparr>score :=
                     wrap64 (score g2 +
                       wrap64 (scoreTable ! nat cleared * wrap64 (level g2 + 1)))\<rparr>
            else g2)
      else g)"

definition clearLines :: "game \<Rightarrow> game" where
  "clearLines g =
     (case clearRows (board g) of
        (b', cleared) \<Rightarrow> scoreUpdate cleared (g\<lparr>board := b'\<rparr>))"

subsection \<open>Locking\<close>

text \<open>\<^verbatim>\<open>g.board[p.y][p.x] = v\<close>: Go panics when an index is outside the array.\<close>

definition setCell :: "int list list \<Rightarrow> point \<Rightarrow> int \<Rightarrow> error + int list list" where
  "setCell b p v =
     (if 0 \<le> py p \<and> py p < boardH \<and> 0 \<le> px p \<and> px p < boardW
      then Inr (b[nat (py p) := (b ! nat (py p))[nat (px p) := v]])
      else Inl IndexOutOfRange)"

text \<open>
  The loop of \<^verbatim>\<open>lockPiece\<close> over the cells: the board written so far, and whether the loop
  left the function through \<^verbatim>\<open>g.gameOver = true; return\<close>.
\<close>

fun lockCells :: "int list list \<Rightarrow> int \<Rightarrow> point list \<Rightarrow> error + (int list list \<times> bool)" where
  "lockCells b k [] = Inr (b, False)"
| "lockCells b k (p # ps) =
     (if py p < 0 then Inr (b, True)
      else bindE (setCell b p (k + 1)) (\<lambda>b'. lockCells b' k ps))"

definition lockPiece :: "game \<Rightarrow> error + game" where
  "lockPiece g =
     bindE (pieceCells (cur g)) (\<lambda>cs.
     bindE (lockCells (board g) (kind (cur g)) cs) (\<lambda>(b', overflow).
       if overflow then Inr (g\<lparr>board := b', gameOver := True\<rparr>)
       else spawn (clearLines (g\<lparr>board := b'\<rparr>))))"

subsection \<open>Moving and rotating\<close>

definition tryMove :: "game \<Rightarrow> int \<Rightarrow> int \<Rightarrow> error + (bool \<times> game)" where
  "tryMove g dx dy =
     (let next = (cur g)\<lparr>ax := ax (cur g) + dx, ay := ay (cur g) + dy\<rparr>
      in bindE (collides g next) (\<lambda>c.
           if \<not> c then Inr (True, g\<lparr>cur := next\<rparr>) else Inr (False, g)))"

text \<open>The loop of \<^verbatim>\<open>tryRotate\<close> over the wall-kick offsets.\<close>

fun rotateKicks :: "game \<Rightarrow> activePiece \<Rightarrow> int list \<Rightarrow> error + (bool \<times> game)" where
  "rotateKicks g next [] = Inr (False, g)"
| "rotateKicks g next (ox # oxs) =
     (let test = next\<lparr>ax := ax next + ox\<rparr>
      in bindE (collides g test) (\<lambda>c.
           if \<not> c then Inr (True, g\<lparr>cur := test\<rparr>) else rotateKicks g next oxs))"

definition tryRotate :: "game \<Rightarrow> int \<Rightarrow> error + (bool \<times> game)" where
  "tryRotate g dir =
     (let next = (cur g)\<lparr>rot := (rot (cur g) + dir + 4) smod 4\<rparr>
      in rotateKicks g next [0, -1, 1, -2, 2])"

subsection \<open>Facts about collision\<close>

lemma bindE_Inr [simp]: "bindE (Inr v) f = f v"
  by (simp add: bindE_def)

lemma bindE_Inl [simp]: "bindE (Inl e) f = Inl e"
  by (simp add: bindE_def)

lemma bindE_eq_Inr: "bindE m f = Inr r \<longleftrightarrow> (\<exists>v. m = Inr v \<and> f v = Inr r)"
  by (cases m) simp_all

lemma collidesCells_iff:
  "collidesCells b cs \<longleftrightarrow>
     (\<exists>p \<in> set cs. px p < 0 \<or> px p \<ge> boardW \<or> py p \<ge> boardH \<or>
        (py p \<ge> 0 \<and> b ! nat (py p) ! nat (px p) \<noteq> 0))"
  by (induction cs) auto

lemma kind_cases:
  "0 \<le> k \<Longrightarrow> k < 7 \<Longrightarrow> k = 0 \<or> k = 1 \<or> k = 2 \<or> k = 3 \<or> k = 4 \<or> k = 5 \<or> k = (6::int)"
  by arith

lemma rot_cases: "0 \<le> r \<Longrightarrow> r < 4 \<Longrightarrow> r = 0 \<or> r = 1 \<or> r = 2 \<or> r = (3::int)"
  by arith

text \<open>
  Every shape of the table has four cells inside the 4x4 box, listed by rows from the top
  (the \<open>py\<close> never decrease along the list).
\<close>

lemma shapeAt_cells:
  assumes "shapeAt k r = Inr cs"
  shows "length cs = 4 \<and> (\<forall>p \<in> set cs. 0 \<le> px p \<and> px p \<le> 3 \<and> 0 \<le> py p \<and> py p \<le> 3) \<and>
         sorted (map py cs)"
proof -
  from assms have k: "0 \<le> k" "k < 7" and r: "0 \<le> r" "r < 4"
    and cs: "cs = pieceShapes ! nat k ! nat r"
    by (auto simp: shapeAt_def split: if_splits)
  from kind_cases [OF k] rot_cases [OF r] show ?thesis
    unfolding cs by (elim disjE) (simp_all add: pieceShapes_def)
qed

lemma collides_False_below:
  assumes "collides g ap = Inr False"
  shows "ay ap < boardH"
proof -
  from assms obtain src where src: "shapeAt (kind ap) (rot ap) = Inr src"
    and nc: "\<not> collidesCells (board g) (map (\<lambda>p. P (ax ap + px p) (ay ap + py p)) src)"
    by (auto simp: collides_def pieceCells_def bindE_eq_Inr)
  from shapeAt_cells [OF src] obtain p where p: "p \<in> set src" "0 \<le> py p"
    by (cases src) auto
  from nc p(1) have "ay ap + py p < boardH"
    by (auto simp: collidesCells_iff)
  with p(2) show ?thesis by simp
qed

lemma tryMove_True:
  assumes "tryMove g dx dy = Inr (True, g')"
  shows "g' = g\<lparr>cur := (cur g)\<lparr>ax := ax (cur g) + dx, ay := ay (cur g) + dy\<rparr>\<rparr>"
    and "collides g (cur g') = Inr False"
  using assms by (auto simp: tryMove_def Let_def bindE_eq_Inr split: if_splits)

subsection \<open>Hard drop and the ghost piece\<close>

text \<open>
  \<^verbatim>\<open>for g.tryMove(0, 1) { }\<close>. The loop ends: a piece that does not collide lies above row
  \<open>boardH\<close>, and every step moves it down by one.
\<close>

function dropLoop :: "game \<Rightarrow> error + game" where
  "dropLoop g =
     (case tryMove g 0 1 of
        Inl e \<Rightarrow> Inl e
      | Inr (moved, g') \<Rightarrow> if moved then dropLoop g' else Inr g')"
  by pat_completeness auto
termination
proof (relation "measure (\<lambda>g. nat (boardH - ay (cur g)))")
  show "wf (measure (\<lambda>g. nat (boardH - ay (cur g))))" by simp
next
  fix g :: game and r moved g'
  assume "tryMove g 0 1 = Inr r" "(moved, g') = r" "moved"
  then have tm: "tryMove g 0 1 = Inr (True, g')" by simp
  from tryMove_True [OF tm] collides_False_below [of g "cur g'"]
  have "ay (cur g') = ay (cur g) + 1" "ay (cur g') < boardH" by simp_all
  then show "(g', g) \<in> measure (\<lambda>g. nat (boardH - ay (cur g)))" by simp
qed

declare dropLoop.simps [simp del]

definition hardDrop :: "game \<Rightarrow> error + game" where
  "hardDrop g =
     bindE (dropLoop g) (\<lambda>g1.
     bindE (lockPiece g1) (\<lambda>g2. Inr (g2\<lparr>dropFrameCounter := 0\<rparr>)))"

text \<open>The loop of \<^verbatim>\<open>ghostPieceY\<close> on the local copy \<^verbatim>\<open>ghost\<close> of the active piece.\<close>

function ghostLoop :: "game \<Rightarrow> activePiece \<Rightarrow> error + int" where
  "ghostLoop g ghost =
     (case collides g \<lparr>kind = kind ghost, rot = rot ghost, ax = ax ghost, ay = ay ghost + 1\<rparr> of
        Inl e \<Rightarrow> Inl e
      | Inr c \<Rightarrow> if \<not> c then ghostLoop g (ghost\<lparr>ay := ay ghost + 1\<rparr>) else Inr (ay ghost))"
  by pat_completeness auto
termination
proof (relation "measure (\<lambda>(g, ghost). nat (boardH - ay ghost))")
  show "wf (measure (\<lambda>(g, ghost). nat (boardH - ay ghost)))" by simp
next
  fix g :: game and ghost :: activePiece and c
  assume "collides g \<lparr>kind = kind ghost, rot = rot ghost, ax = ax ghost, ay = ay ghost + 1\<rparr> = Inr c"
    and "\<not> c"
  then have "ay ghost + 1 < boardH"
    using collides_False_below
      [of g "\<lparr>kind = kind ghost, rot = rot ghost, ax = ax ghost, ay = ay ghost + 1\<rparr>"]
    by simp
  then show "((g, ghost\<lparr>ay := ay ghost + 1\<rparr>), (g, ghost))
      \<in> measure (\<lambda>(g, ghost). nat (boardH - ay ghost))"
    by simp
qed

declare ghostLoop.simps [simp del]

definition ghostPieceY :: "game \<Rightarrow> error + int" where
  "ghostPieceY g = ghostLoop g (cur g)"

subsection \<open>The per-frame update\<close>

definition gravityFrames :: "int \<Rightarrow> int" where
  "gravityFrames lvl = (let f = 30 - lvl * 2 in if f < 2 then 2 else f)"

text \<open>
  What \<^verbatim>\<open>Update\<close> reads from the outside in one frame: the keys just pressed
  (\<^verbatim>\<open>inpututil.IsKeyJustPressed\<close>), the keys held (\<^verbatim>\<open>ebiten.IsKeyPressed\<close>), whether
  \<^verbatim>\<open>runtime.GOOS\<close> is ios or android, the window size, the positions of the touches just
  pressed and of the touches held, and the random source a restart would seed.
\<close>

record input =
  jpLeft :: bool
  jpA :: bool
  jpRight :: bool
  jpD :: bool
  jpZ :: bool
  jpX :: bool
  jpUp :: bool
  jpW :: bool
  jpSpace :: bool
  jpEnter :: bool
  prDown :: bool
  prS :: bool
  mobile :: bool
  windowSize :: "int \<times> int"
  justTouches :: "(int \<times> int) list"
  downTouches :: "(int \<times> int) list"
  freshRng :: rand

text \<open>A call whose boolean result \<^verbatim>\<open>Update\<close> ignores.\<close>

definition ignoreResult :: "error + (bool \<times> game) \<Rightarrow> error + game" where
  "ignoreResult m = bindE m (\<lambda>r. Inr (snd r))"

text \<open>\<^verbatim>\<open>Reset\<close>: \<^verbatim>\<open>*g = *NewGame()\<close>.\<close>

definition Reset :: "input \<Rightarrow> game \<Rightarrow> error + game" where
  "Reset inp g = NewGame (freshRng inp)"

text \<open>The keyboard part of \<^verbatim>\<open>Update\<close> (lines 272 to 287).\<close>

definition applyKeys :: "input \<Rightarrow> game \<Rightarrow> error + game" where
  "applyKeys inp g0 =
     bindE (if jpLeft inp \<or> jpA inp then ignoreResult (tryMove g0 (-1) 0) else Inr g0) (\<lambda>g1.
     bindE (if jpRight inp \<or> jpD inp then ignoreResult (tryMove g1 1 0) else Inr g1) (\<lambda>g2.
     bindE (if jpZ inp then ignoreResult (tryRotate g2 (-1)) else Inr g2) (\<lambda>g3.
     bindE (if jpX inp \<or> jpUp inp \<or> jpW inp then ignoreResult (tryRotate g3 1) else Inr g3) (\<lambda>g4.
     if jpSpace inp then hardDrop g4 else Inr g4))))"

text \<open>The closures \<^verbatim>\<open>justPressIn\<close> and \<^verbatim>\<open>pressIn\<close>, over the positions of the touches.\<close>

definition touchIn :: "(int \<times> int) list \<Rightarrow> int \<Rightarrow> int \<Rightarrow> int \<Rightarrow> bool" where
  "touchIn ts btnY btnW ix =
     list_ex (\<lambda>(x, y). y \<ge> btnY \<and> x \<ge> ix * btnW \<and> x < (ix + 1) * btnW) ts"

text \<open>The touch part of \<^verbatim>\<open>Update\<close> (lines 291 to 340); it also may set \<^verbatim>\<open>softDrop\<close>.\<close>

definition applyTouch :: "input \<Rightarrow> bool \<Rightarrow> game \<Rightarrow> error + (game \<times> bool)" where
  "applyTouch inp softDrop g0 =
     (if mobile inp then
        (let (w, h) = (if fst (windowSize inp) = 0 \<or> snd (windowSize inp) = 0
                       then (logicalW, logicalH) else windowSize inp);
             ctrlH = 160;
             btnY = h - ctrlH;
             btnW = w sdiv 4;
             justPressIn = touchIn (justTouches inp) btnY btnW;
             pressIn = touchIn (downTouches inp) btnY btnW
         in
           bindE (if justPressIn 0 then ignoreResult (tryMove g0 (-1) 0) else Inr g0) (\<lambda>g1.
           bindE (if justPressIn 1 then ignoreResult (tryMove g1 1 0) else Inr g1) (\<lambda>g2.
           bindE (if justPressIn 2 then ignoreResult (tryRotate g2 1) else Inr g2) (\<lambda>g3.
           bindE (if justPressIn 3 then hardDrop g3 else Inr g3) (\<lambda>g4.
           Inr (g4, if pressIn 0 \<or> pressIn 1 then True else softDrop))))))
      else Inr (g0, softDrop))"

text \<open>\<^verbatim>\<open>if !g.tryMove(0, 1) { g.lockPiece() }; g.dropFrameCounter = 0\<close>.\<close>

definition fallOrLock :: "game \<Rightarrow> error + game" where
  "fallOrLock g =
     bindE (tryMove g 0 1) (\<lambda>(moved, g1).
     bindE (if \<not> moved then lockPiece g1 else Inr g1) (\<lambda>g2.
     Inr (g2\<lparr>dropFrameCounter := 0\<rparr>)))"

text \<open>Gravity and soft drop (lines 342 to 355).\<close>

definition gravityStep :: "bool \<Rightarrow> game \<Rightarrow> error + game" where
  "gravityStep softDrop g0 =
     (let g = g0\<lparr>dropFrameCounter := dropFrameCounter g0 + 1\<rparr>
      in if softDrop then fallOrLock g
         else if dropFrameCounter g \<ge> gravityFrames (level g) then fallOrLock g
         else Inr g)"

definition Update :: "input \<Rightarrow> game \<Rightarrow> error + game" where
  "Update inp g =
     (if gameOver g then
        (if jpSpace inp \<or> jpEnter inp \<or> length (justTouches inp) > 0 then Reset inp g
         else Inr g)
      else
        bindE (applyKeys inp g) (\<lambda>g1.
        bindE (applyTouch inp (prDown inp \<or> prS inp) g1) (\<lambda>(g2, softDrop).
        gravityStep softDrop g2)))"

text \<open>The states a game can be in between two frames.\<close>

inductive reachable :: "game \<Rightarrow> bool" where
  fresh: "NewGame r = Inr g \<Longrightarrow> reachable g"
| frame: "reachable g \<Longrightarrow> Update inp g = Inr g' \<Longrightarrow> reachable g'"

subsection \<open>Notions used in the statements\<close>

text \<open>
  \<open>n\<close> consecutive calls of \<^verbatim>\<open>popBag\<close>, with the kinds drawn in order. A bag boundary is a
  state with an empty bag: the next draw refills and shuffles.
\<close>

fun drawN :: "nat \<Rightarrow> game \<Rightarrow> error + (int list \<times> game)" where
  "drawN 0 g = Inr ([], g)"
| "drawN (Suc n) g =
     bindE (popBag g) (\<lambda>(v, g1).
     bindE (drawN n g1) (\<lambda>(vs, g2). Inr (v # vs, g2)))"

text \<open>
  An example board: two blocks in row 5 above an empty region, and an O piece at the top.
\<close>

definition cavityGame :: game where
  "cavityGame =
     (zeroGame zeroRng)
       \<lparr>board := replicate 5 (replicate 10 0) @ [[0, 0, 0, 0, 1, 1, 0, 0, 0, 0]] @
                 replicate 14 (replicate 10 0),
        cur := \<lparr>kind = 1, rot = 0, ax = 3, ay = 0\<rparr>\<rparr>"

text \<open>
  The row of the anchor at which \<^verbatim>\<open>hardDrop\<close> calls \<^verbatim>\<open>lockPiece\<close>.
\<close>

definition lockRow :: "game \<Rightarrow> error + int" where
  "lockRow g = bindE (dropLoop g) (\<lambda>g1. Inr (ay (cur g1)))"

text \<open>
  Every cell of the piece is a cell of the board.
\<close>

definition fits :: "activePiece \<Rightarrow> bool" where
  "fits ap =
     (case pieceCells ap of
        Inl e \<Rightarrow> False
      | Inr cs \<Rightarrow> list_all (\<lambda>p. 0 \<le> px p \<and> px p < boardW \<and> 0 \<le> py p \<and> py p < boardH) cs)"

text \<open>
  The bag holds piece kinds only.
\<close>

definition bagOk :: "int list \<Rightarrow> bool" where
  "bagOk b = list_all (\<lambda>k. 0 \<le> k \<and> k < 7) b"

text \<open>
  The invariant of the game: the board has its \<open>H\<close> rows of \<open>W\<close> cells, the active piece
  is anchored at a row \<open>y \<ge> 0\<close> with all its cells on the board, the kinds in store are
  kinds of the table, and outside game over the active piece is a valid placement.
\<close>

definition gameInv :: "game \<Rightarrow> bool" where
  "gameInv g =
     (wf_board (board g) \<and> 0 \<le> ay (cur g) \<and> fits (cur g) \<and>
      0 \<le> nextKind g \<and> nextKind g < 7 \<and> bagOk (bag g) \<and>
      (gameOver g \<or> collides g (cur g) = Inr False))"

text \<open>
  A computation that does not panic and returns a state with the invariant.
\<close>

definition okE :: "error + game \<Rightarrow> bool" where
  "okE m = (case m of Inl e \<Rightarrow> False | Inr g \<Rightarrow> gameInv g)"

text \<open>
  The same for a computation that also returns the soft-drop flag.
\<close>

definition okT :: "error + (game \<times> bool) \<Rightarrow> bool" where
  "okT m = (case m of Inl e \<Rightarrow> False | Inr r \<Rightarrow> gameInv (fst r))"

text \<open>
  A frame in which nothing is pressed, on a desktop.
\<close>

definition noInput :: input where
  "noInput =
     \<lparr>jpLeft = False, jpA = False, jpRight = False, jpD = False, jpZ = False, jpX = False,
      jpUp = False, jpW = False, jpSpace = False, jpEnter = False, prDown = False,
      prS = False, mobile = False, windowSize = (0, 0), justTouches = [], downTouches = [],
      freshRng = zeroRng\<rparr>"

text \<open>
  The restart-class inputs of \<^verbatim>\<open>Update\<close>: Space or Enter just pressed, or a new touch.
\<close>

definition restartPressed :: "input \<Rightarrow> bool" where
  "restartPressed inp = (jpSpace inp \<or> jpEnter inp \<or> length (justTouches inp) > 0)"

text \<open>
  Successive calls of \<^verbatim>\<open>Update\<close>, one per input.
\<close>

fun frames :: "input list \<Rightarrow> game \<Rightarrow> error + game" where
  "frames [] g = Inr g"
| "frames (inp # inps) g = bindE (Update inp g) (frames inps)"

section \<open>Valid placements\<close>

lemma collidesCells_valid:
  "collidesCells b cs \<longleftrightarrow>
     \<not> (\<forall>p \<in> set cs. 0 \<le> px p \<and> px p < boardW \<and> py p < boardH \<and>
          (py p < 0 \<or> b ! nat (py p) ! nat (px p) = 0))"
  by (induction cs) (simp_all add: not_le not_less)

text \<open>
  Claim C5. A placement is valid when \<^verbatim>\<open>collides\<close> returns false. For every board and every
  piece of the table (kind in \<open>0..6\<close>, rotation in \<open>0..3\<close>), \<^verbatim>\<open>collides\<close> returns false if and
  only if every occupied cell \<open>(x, y)\<close> of the piece has \<open>0 \<le> x < W\<close>, \<open>y < H\<close>, and \<open>y < 0\<close> or
  an empty board cell at \<open>(x, y)\<close>. A cell with \<open>y < 0\<close> is exempt from the occupancy check,
  not from the bounds on \<open>x\<close>.
\<close>

theorem collides_iff_invalid:
  assumes "0 \<le> kind ap" "kind ap < 7" "0 \<le> rot ap" "rot ap < 4"
  shows "\<exists>cs. pieceCells ap = Inr cs \<and>
           cs = map (\<lambda>p. P (ax ap + px p) (ay ap + py p))
                  (pieceShapes ! nat (kind ap) ! nat (rot ap)) \<and>
           collides g ap =
             Inr (\<not> (\<forall>p \<in> set cs. 0 \<le> px p \<and> px p < boardW \<and> py p < boardH \<and>
                       (py p < 0 \<or> board g ! nat (py p) ! nat (px p) = 0)))"
  using assms by (simp add: collides_def pieceCells_def shapeAt_def collidesCells_valid)

text \<open>
  On the empty board, a T piece whose top cell is above the board is valid at column 3 and
  invalid at column 8, where its right cell is at \<open>x = 10\<close>.
\<close>

theorem collides_iff_invalid_witness:
  "collides (zeroGame zeroRng) \<lparr>kind = 2, rot = 0, ax = 3, ay = -1\<rparr> = Inr False \<and>
   collides (zeroGame zeroRng) \<lparr>kind = 2, rot = 0, ax = 8, ay = -1\<rparr> = Inr True"
  using collides_iff_invalid [of "\<lparr>kind = 2, rot = 0, ax = 3, ay = -1\<rparr>" "zeroGame zeroRng"]
    collides_iff_invalid [of "\<lparr>kind = 2, rot = 0, ax = 8, ay = -1\<rparr>" "zeroGame zeroRng"]
  by (simp add: pieceShapes_def zeroGame_def boardW_def boardH_def nth_Cons')

section \<open>Scoring\<close>

lemma sdiv_nonneg: "0 \<le> a \<Longrightarrow> 0 < b \<Longrightarrow> a sdiv b = a div (b::int)"
  by (simp add: signed_divide_int_def sgn_if)

lemma wrap64_id: "- (2 ^ 63) \<le> v \<Longrightarrow> v < 2 ^ 63 \<Longrightarrow> wrap64 v = v"
  by (simp add: wrap64_def)

lemma scoreTable_nth:
  assumes "0 < C" "C \<le> 4"
  shows "1 \<le> scoreTable ! nat C"
proof -
  from assms have "C = 1 \<or> C = 2 \<or> C = 3 \<or> C = 4" by arith
  then show ?thesis by (elim disjE) (simp_all add: scoreTable_def)
qed

text \<open>The fields after \<^verbatim>\<open>clearLines\<close>, for the count of rows that its loops find full.\<close>

lemma clearLines_score:
  assumes "snd (clearRows (board g)) = C" "0 < C" "C \<le> 4"
  shows "lines (clearLines g) = wrap64 (lines g + C)"
    and "level (clearLines g) = lines (clearLines g) sdiv 10"
    and "score (clearLines g) =
           wrap64 (score g + wrap64 (scoreTable ! nat C * wrap64 (level (clearLines g) + 1)))"
  using assms by (simp_all add: clearLines_def scoreUpdate_def split_beta Let_def)

lemma clearLines_exact:
  assumes "snd (clearRows (board g)) = C" "0 < C" "C \<le> 4"
    and "0 \<le> lines g" "0 \<le> score g" "lines g + C < 2 ^ 63"
    and "score g + scoreTable ! nat C * ((lines g + C) div 10 + 1) < 2 ^ 63"
  shows "lines (clearLines g) = lines g + C"
    and "level (clearLines g) = (lines g + C) div 10"
    and "score (clearLines g) = score g + scoreTable ! nat C * ((lines g + C) div 10 + 1)"
proof -
  note f = clearLines_score [OF assms(1-3)]
  from assms(2,4,6) show l: "lines (clearLines g) = lines g + C"
    by (simp add: f(1) wrap64_id)
  from assms(2,4) show v: "level (clearLines g) = (lines g + C) div 10"
    by (simp add: f(2) l sdiv_nonneg)
  let ?lv = "(lines g + C) div 10"
  let ?t = "scoreTable ! nat C"
  from assms(2,4) have lv: "0 \<le> ?lv" by simp
  from scoreTable_nth [OF assms(2,3)] have t: "1 \<le> ?t" .
  from lv t have "1 * (?lv + 1) \<le> ?t * (?lv + 1)"
    by (intro mult_right_mono) simp_all
  with lv have p: "0 \<le> ?t * (?lv + 1)" "?lv + 1 \<le> ?t * (?lv + 1)" by simp_all
  from p assms(5,7) have b: "?t * (?lv + 1) < 2 ^ 63" "?lv + 1 < 2 ^ 63" by linarith+
  from lv b(2) have w1: "wrap64 (?lv + 1) = ?lv + 1" by (intro wrap64_id) simp_all
  from p(1) b(1) have w2: "wrap64 (?t * (?lv + 1)) = ?t * (?lv + 1)"
    by (intro wrap64_id) simp_all
  from p(1) assms(5,7) have w3: "wrap64 (score g + ?t * (?lv + 1)) = score g + ?t * (?lv + 1)"
    by (intro wrap64_id) simp_all
  show "score (clearLines g) = score g + ?t * (?lv + 1)"
    by (simp add: f(3) v w1 w2 w3)
qed

text \<open>
  Claim C1, as stated, fails: the score is not raised with the level in effect before
  the clear. With 9 lines cleared so far (level 0) and one full row on the board,
  \<^verbatim>\<open>clearLines\<close> adds \<open>40 * 2 = 80\<close> points, since it first raises \<^verbatim>\<open>lines\<close> to 10 and
  \<^verbatim>\<open>level\<close> to 1; the claim's formula gives \<open>40 * (0 + 1) = 40\<close>.
\<close>

theorem clearLines_level_counterexample:
  "snd (clearRows (board ((zeroGame zeroRng)
      \<lparr>board := replicate 19 (replicate 10 0) @ [replicate 10 1], lines := 9\<rparr>))) = 1 \<and>
   score (clearLines ((zeroGame zeroRng)
      \<lparr>board := replicate 19 (replicate 10 0) @ [replicate 10 1], lines := 9\<rparr>)) = 80 \<and>
   score ((zeroGame zeroRng)
      \<lparr>board := replicate 19 (replicate 10 0) @ [replicate 10 1], lines := 9\<rparr>) +
     scoreTable ! 1 * (level ((zeroGame zeroRng)
      \<lparr>board := replicate 19 (replicate 10 0) @ [replicate 10 1], lines := 9\<rparr>) + 1) = 40"
  by code_simp

text \<open>
  Claim C1, amended. Let \<open>C\<close> in \<open>0..4\<close> be the count of full rows that \<^verbatim>\<open>clearLines\<close> finds
  on the board. For \<open>C = 0\<close> the score, the lines and the level stay as they are. For \<open>C\<close>
  in \<open>1..4\<close> \<^verbatim>\<open>clearLines\<close> first sets \<open>lines\<close> to \<open>lines + C\<close>, then recomputes
  \<open>level = lines / 10\<close>, then adds \<open>scoreTable[C] * (level + 1)\<close> to the score with the
  recomputed level, all in Go's 64-bit arithmetic. With counters that are not negative and
  results below \<open>2^63\<close> nothing wraps and the sums are exact. In particular clearing 4 rows
  when fewer than 6 lines were cleared before adds exactly 1200, and clearing 1 row when
  the new line count is in \<open>20..29\<close> adds exactly 120.
\<close>

theorem clearLines_new_level:
  assumes "snd (clearRows (board g)) = C" "0 \<le> C" "C \<le> 4"
  shows "board (clearLines g) = fst (clearRows (board g)) \<and>
     (if C = 0
      then score (clearLines g) = score g \<and> lines (clearLines g) = lines g \<and>
           level (clearLines g) = level g
      else lines (clearLines g) = wrap64 (lines g + C) \<and>
           level (clearLines g) = lines (clearLines g) sdiv 10 \<and>
           score (clearLines g) =
             wrap64 (score g +
               wrap64 (scoreTable ! nat C * wrap64 (level (clearLines g) + 1))) \<and>
           (0 \<le> lines g \<and> 0 \<le> score g \<and> lines g + C < 2 ^ 63 \<and>
            score g + scoreTable ! nat C * ((lines g + C) div 10 + 1) < 2 ^ 63 \<longrightarrow>
              lines (clearLines g) = lines g + C \<and>
              level (clearLines g) = (lines g + C) div 10 \<and>
              score (clearLines g) =
                score g + scoreTable ! nat C * ((lines g + C) div 10 + 1)) \<and>
           (C = 4 \<and> 0 \<le> lines g \<and> lines g + 4 < 10 \<and> 0 \<le> score g \<and>
            score g + 1200 < 2 ^ 63 \<longrightarrow> score (clearLines g) = score g + 1200) \<and>
           (C = 1 \<and> 20 \<le> lines g + 1 \<and> lines g + 1 < 30 \<and> 0 \<le> score g \<and>
            score g + 120 < 2 ^ 63 \<longrightarrow> score (clearLines g) = score g + 120))"
proof (cases "C = 0")
  case True
  with assms(1) show ?thesis
    by (simp add: clearLines_def scoreUpdate_def split_beta)
next
  case False
  with assms have C: "0 < C" "C \<le> 4" by simp_all
  have b: "board (clearLines g) = fst (clearRows (board g))"
    by (simp add: clearLines_def scoreUpdate_def split_beta Let_def)
  note f = clearLines_score [OF assms(1) C]
  note e = clearLines_exact [OF assms(1) C]
  have four: "score (clearLines g) = score g + 1200"
    if a: "C = 4 \<and> 0 \<le> lines g \<and> lines g + 4 < 10 \<and> 0 \<le> score g \<and> score g + 1200 < 2 ^ 63"
  proof -
    from a have d: "(lines g + 4) div 10 = 0" by simp
    from a d show ?thesis using e(3) by (simp add: scoreTable_def)
  qed
  have one: "score (clearLines g) = score g + 120"
    if a: "C = 1 \<and> 20 \<le> lines g + 1 \<and> lines g + 1 < 30 \<and> 0 \<le> score g \<and> score g + 120 < 2 ^ 63"
  proof -
    from a have d: "(lines g + 1) div 10 = 2" by presburger
    from a d show ?thesis using e(3) by (simp add: scoreTable_def)
  qed
  from False b f e four one show ?thesis by simp
qed

text \<open>
  Four full rows at the start of a game; four full rows after six lines, where the level
  rises to 1; one full row at 20 lines; no full row; and one full row with the score 10
  below the greatest 64-bit value, where the sum wraps.
\<close>

theorem clearLines_new_level_witness:
  "score (clearLines ((zeroGame zeroRng)
      \<lparr>board := replicate 16 (replicate 10 0) @ replicate 4 (replicate 10 1)\<rparr>)) = 1200 \<and>
   level (clearLines ((zeroGame zeroRng)
      \<lparr>board := replicate 16 (replicate 10 0) @ replicate 4 (replicate 10 1),
       lines := 6\<rparr>)) = 1 \<and>
   score (clearLines ((zeroGame zeroRng)
      \<lparr>board := replicate 16 (replicate 10 0) @ replicate 4 (replicate 10 1),
       lines := 6\<rparr>)) = 2400 \<and>
   score (clearLines ((zeroGame zeroRng)
      \<lparr>board := replicate 19 (replicate 10 0) @ [replicate 10 1],
       lines := 20, level := 2\<rparr>)) = 120 \<and>
   score (clearLines (zeroGame zeroRng)) = 0 \<and>
   score (clearLines ((zeroGame zeroRng)
      \<lparr>board := replicate 19 (replicate 10 0) @ [replicate 10 1],
       score := 9223372036854775797\<rparr>)) = - 9223372036854775779"
proof -
  have c4: "snd (clearRows (replicate 16 (replicate 10 0) @ replicate 4 (replicate 10 1))) = 4"
    and c1: "snd (clearRows (replicate 19 (replicate 10 0) @ [replicate 10 1])) = 1"
    and c0: "snd (clearRows (replicate 20 (replicate 10 0))) = 0"
    by code_simp+
  from clearLines_new_level [of "(zeroGame zeroRng)
      \<lparr>board := replicate 16 (replicate 10 0) @ replicate 4 (replicate 10 1)\<rparr>" 4] c4
  have a: "score (clearLines ((zeroGame zeroRng)
      \<lparr>board := replicate 16 (replicate 10 0) @ replicate 4 (replicate 10 1)\<rparr>)) = 1200"
    by (simp add: zeroGame_def scoreTable_def wrap64_def signed_divide_int_def)
  from clearLines_new_level [of "(zeroGame zeroRng)
      \<lparr>board := replicate 16 (replicate 10 0) @ replicate 4 (replicate 10 1),
       lines := 6\<rparr>" 4] c4
  have b: "level (clearLines ((zeroGame zeroRng)
      \<lparr>board := replicate 16 (replicate 10 0) @ replicate 4 (replicate 10 1),
       lines := 6\<rparr>)) = 1 \<and>
    score (clearLines ((zeroGame zeroRng)
      \<lparr>board := replicate 16 (replicate 10 0) @ replicate 4 (replicate 10 1),
       lines := 6\<rparr>)) = 2400"
    by (simp add: zeroGame_def scoreTable_def wrap64_def signed_divide_int_def)
  from clearLines_new_level [of "(zeroGame zeroRng)
      \<lparr>board := replicate 19 (replicate 10 0) @ [replicate 10 1],
       lines := 20, level := 2\<rparr>" 1] c1
  have c: "score (clearLines ((zeroGame zeroRng)
      \<lparr>board := replicate 19 (replicate 10 0) @ [replicate 10 1],
       lines := 20, level := 2\<rparr>)) = 120"
    by (simp add: zeroGame_def scoreTable_def wrap64_def signed_divide_int_def)
  from clearLines_new_level [of "zeroGame zeroRng" 0] c0
  have d: "score (clearLines (zeroGame zeroRng)) = 0"
    by (simp add: zeroGame_def boardH_def boardW_def)
  from clearLines_new_level [of "(zeroGame zeroRng)
      \<lparr>board := replicate 19 (replicate 10 0) @ [replicate 10 1],
       score := 9223372036854775797\<rparr>" 1] c1
  have e: "score (clearLines ((zeroGame zeroRng)
      \<lparr>board := replicate 19 (replicate 10 0) @ [replicate 10 1],
       score := 9223372036854775797\<rparr>)) = - 9223372036854775779"
    by (simp add: zeroGame_def scoreTable_def wrap64_def signed_divide_int_def)
  from a b c d e show ?thesis by simp
qed

section \<open>Clearing full rows\<close>

lemma rowFullAt_iff: "rowFullAt row xs \<longleftrightarrow> (\<forall>x \<in> set xs. row ! x \<noteq> 0)"
  by (induction xs) auto

lemma rowFull_iff:
  assumes "length row = nat boardW"
  shows "rowFull row \<longleftrightarrow> (\<forall>v \<in> set row. v \<noteq> 0)"
  using assms by (auto simp: rowFull_def rowFullAt_iff in_set_conv_nth)

lemma rowFull_zeros: "\<not> rowFull (replicate (nat boardW) 0)"
  by (simp add: rowFull_iff) (simp add: boardW_def)

lemma scanRows_eq:
  "scanRows b ys (acc, c) =
     (acc @ filter (\<lambda>row. \<not> rowFull row) (map (\<lambda>y. b ! y) ys),
      c + int (length (filter rowFull (map (\<lambda>y. b ! y) ys))))"
  by (induction ys arbitrary: acc c) simp_all

lemma padRows_eq:
  "length rs \<le> nat boardH \<Longrightarrow>
     padRows rs = replicate (nat boardH - length rs) (replicate (nat boardW) 0) @ rs"
proof (induction rs rule: padRows.induct)
  case (1 newRows)
  show ?case
  proof (cases "int (length newRows) < boardH")
    case True
    then have "length (replicate (nat boardW) (0::int) # newRows) \<le> nat boardH" by simp
    from "1.IH" [OF True this] True show ?thesis
      by (subst padRows.simps) (simp add: Suc_diff_Suc replicate_app_Cons_same flip: replicate_Suc)
  next
    case False
    with "1.prems" show ?thesis by (subst padRows.simps) simp
  qed
qed

lemma clearRows_eq:
  assumes "wf_board b"
  shows "clearRows b =
     (replicate (length (filter rowFull b)) (replicate (nat boardW) 0) @
        filter (\<lambda>row. \<not> rowFull row) b,
      int (length (filter rowFull b)))"
proof -
  from assms have len: "length b = nat boardH" by (simp add: wf_board_def)
  have m: "map (\<lambda>y. b ! y) [0..<nat boardH] = b"
    using len map_nth [of b] by simp
  have sum: "length (filter rowFull b) + length (filter (\<lambda>row. \<not> rowFull row) b) = nat boardH"
    using sum_length_filter_compl [of rowFull b] len by simp
  then have le: "length (filter (\<lambda>row. \<not> rowFull row) b) \<le> nat boardH" by simp
  have pad: "padRows (filter (\<lambda>row. \<not> rowFull row) b) =
     replicate (length (filter rowFull b)) (replicate (nat boardW) 0) @ filter (\<lambda>row. \<not> rowFull row) b"
    using padRows_eq [OF le] sum by simp
  have lp: "length (padRows (filter (\<lambda>row. \<not> rowFull row) b)) = nat boardH"
    using sum by (simp add: pad)
  have "map (\<lambda>y. padRows (filter (\<lambda>row. \<not> rowFull row) b) ! y) [0..<nat boardH] =
        padRows (filter (\<lambda>row. \<not> rowFull row) b)"
    using map_nth [of "padRows (filter (\<lambda>row. \<not> rowFull row) b)"] lp by simp
  then show ?thesis
    by (simp add: clearRows_def scanRows_eq m pad)
qed


lemma clearRows_spec:
  assumes "wf_board b"
  shows "clearRows b =
     (replicate (length (filter (\<lambda>row. \<forall>v \<in> set row. v \<noteq> 0) b)) (replicate (nat boardW) 0) @
        filter (\<lambda>row. \<not> (\<forall>v \<in> set row. v \<noteq> 0)) b,
      int (length (filter (\<lambda>row. \<forall>v \<in> set row. v \<noteq> 0) b)))"
proof -
  from assms have rows: "\<forall>row \<in> set b. length row = nat boardW"
    by (simp add: wf_board_def list_all_iff)
  then have f: "filter rowFull b = filter (\<lambda>row. \<forall>v \<in> set row. v \<noteq> 0) b"
    by (intro filter_cong) (simp_all add: rowFull_iff)
  from rows have n: "filter (\<lambda>row. \<not> rowFull row) b = filter (\<lambda>row. \<not> (\<forall>v \<in> set row. v \<noteq> 0)) b"
    by (intro filter_cong) (simp_all add: rowFull_iff)
  show ?thesis
    unfolding clearRows_eq [OF assms] f n ..
qed

lemma filter_update_count:
  "length (filter Q (b[i := r])) \<le> Suc (length (filter Q b))"
proof (cases "i < length b")
  case True
  then have "b[i := r] = take i b @ r # drop (Suc i) b"
    by (simp add: upd_conv_take_nth_drop)
  moreover from True have "b = take i b @ b ! i # drop (Suc i) b"
    by (simp add: id_take_nth_drop)
  then have "length (filter Q b) =
      length (filter Q (take i b)) + length (filter Q [b ! i]) + length (filter Q (drop (Suc i) b))"
    by (metis append_Cons append_Nil filter_append length_append add.assoc)
  ultimately show ?thesis by simp
next
  case False
  then show ?thesis by (simp add: list_update_beyond not_less)
qed

lemma lockCells_count:
  "lockCells b0 k cs = Inr (b, over) \<Longrightarrow>
     length (filter Q b) \<le> length (filter Q b0) + length cs"
proof (induction cs arbitrary: b0)
  case Nil
  then show ?case by simp
next
  case (Cons p ps)
  show ?case
  proof (cases "py p < 0")
    case True
    with Cons.prems show ?thesis by simp
  next
    case False
    with Cons.prems obtain b' where s: "setCell b0 p (k + 1) = Inr b'"
      and l: "lockCells b' k ps = Inr (b, over)"
      by (auto simp: bindE_eq_Inr)
    from s have "length (filter Q b') \<le> Suc (length (filter Q b0))"
      by (auto simp: setCell_def filter_update_count split: if_splits)
    with Cons.IH [OF l] show ?thesis by simp
  qed
qed

lemma setCell_wf: "setCell b p v = Inr b' \<Longrightarrow> wf_board b \<Longrightarrow> wf_board b'"
  by (auto simp: setCell_def wf_board_def list_all_iff split: if_splits dest!: set_update_subset_insert [THEN subsetD])

lemma lockCells_wf:
  "lockCells b0 k cs = Inr (b, over) \<Longrightarrow> wf_board b0 \<Longrightarrow> wf_board b"
  by (induction cs arbitrary: b0) (auto simp: bindE_eq_Inr setCell_wf split: if_splits)

text \<open>
  Claim C6. For every game whose board has \<open>H\<close> rows of \<open>W\<close> cells, \<^verbatim>\<open>clearLines\<close> removes
  from the board exactly the rows whose \<open>W\<close> cells are all nonzero, keeps the other rows in
  their order at the bottom, puts one empty row on top for each removed row, so that the
  board has \<open>H\<close> rows again, and counts the removed rows: the count is the local
  \<^verbatim>\<open>cleared\<close>, which it adds to \<^verbatim>\<open>lines\<close>. When the board comes from a board without a full
  row by the cell writes of one lock (at most four cells), the count is between 0 and 4.
\<close>

theorem clearLines_compacts:
  assumes "wf_board (board g)"
  shows "board (clearLines g) =
       replicate (length (filter (\<lambda>row. \<forall>v \<in> set row. v \<noteq> 0) (board g)))
         (replicate (nat boardW) 0) @
       filter (\<lambda>row. \<not> (\<forall>v \<in> set row. v \<noteq> 0)) (board g) \<and>
    length (board (clearLines g)) = nat boardH \<and>
    clearRows (board g) =
      (board (clearLines g),
       int (length (filter (\<lambda>row. \<forall>v \<in> set row. v \<noteq> 0) (board g)))) \<and>
    lines (clearLines g) =
      (if snd (clearRows (board g)) = 0 then lines g
       else wrap64 (lines g + snd (clearRows (board g)))) \<and>
    (\<forall>b0 k cs over.
       wf_board b0 \<and> (\<forall>row \<in> set b0. \<exists>v \<in> set row. v = 0) \<and> length cs \<le> 4 \<and>
       lockCells b0 k cs = Inr (board g, over) \<longrightarrow>
         0 \<le> snd (clearRows (board g)) \<and> snd (clearRows (board g)) \<le> 4)"
proof -
  let ?b = "board g"
  have c: "clearRows ?b =
     (replicate (length (filter (\<lambda>row. \<forall>v \<in> set row. v \<noteq> 0) ?b)) (replicate (nat boardW) 0) @
        filter (\<lambda>row. \<not> (\<forall>v \<in> set row. v \<noteq> 0)) ?b,
      int (length (filter (\<lambda>row. \<forall>v \<in> set row. v \<noteq> 0) ?b)))"
    by (rule clearRows_spec [OF assms])
  have bd: "board (clearLines g) = fst (clearRows ?b)"
    by (simp add: clearLines_def scoreUpdate_def split_beta Let_def)
  have n: "snd (clearRows ?b) = int (length (filter (\<lambda>row. \<forall>v \<in> set row. v \<noteq> 0) ?b))"
    unfolding c by simp
  have b1: "board (clearLines g) =
       replicate (length (filter (\<lambda>row. \<forall>v \<in> set row. v \<noteq> 0) ?b)) (replicate (nat boardW) 0) @
       filter (\<lambda>row. \<not> (\<forall>v \<in> set row. v \<noteq> 0)) ?b"
    unfolding bd c by simp
  from assms have "length ?b = nat boardH" by (simp add: wf_board_def)
  then have len: "length (board (clearLines g)) = nat boardH"
    using sum_length_filter_compl [of "\<lambda>row. \<forall>v \<in> set row. v \<noteq> 0" ?b]
    unfolding b1 by simp
  have cr: "clearRows ?b =
      (board (clearLines g), int (length (filter (\<lambda>row. \<forall>v \<in> set row. v \<noteq> 0) ?b)))"
    unfolding bd using n by (simp add: prod_eq_iff)
  have "0 \<le> snd (clearRows ?b)" unfolding n by simp
  then have ln: "lines (clearLines g) =
      (if snd (clearRows ?b) = 0 then lines g else wrap64 (lines g + snd (clearRows ?b)))"
    by (simp add: clearLines_def scoreUpdate_def split_beta Let_def)
  have bound: "0 \<le> snd (clearRows ?b) \<and> snd (clearRows ?b) \<le> 4"
    if h: "wf_board b0 \<and> (\<forall>row \<in> set b0. \<exists>v \<in> set row. v = 0) \<and> length cs \<le> 4 \<and>
       lockCells b0 k cs = Inr (?b, over)" for b0 k cs over
  proof -
    from h have "filter (\<lambda>row. \<forall>v \<in> set row. v \<noteq> 0) b0 = []"
      by (auto simp: filter_empty_conv)
    with lockCells_count [of b0 k cs ?b over "\<lambda>row. \<forall>v \<in> set row. v \<noteq> 0"] h
    show ?thesis unfolding n by simp
  qed
  from b1 len cr ln bound show ?thesis by blast
qed

text \<open>
  Claim C9. On a board with no full row (each row has an empty cell) the row clearing
  returns 0 and leaves the grid as it is; \<^verbatim>\<open>clearLines\<close> leaves the whole game unchanged.
  So a second call in a row again returns 0 and changes nothing.
\<close>

theorem clearRows_no_full:
  assumes "wf_board (board g)" and "\<forall>row \<in> set (board g). \<exists>v \<in> set row. v = 0"
  shows "clearRows (board g) = (board g, 0) \<and> clearLines g = g \<and>
         clearRows (fst (clearRows (board g))) = (board g, 0) \<and> clearLines (clearLines g) = g"
proof -
  from assms(2) have e: "filter (\<lambda>row. \<forall>v \<in> set row. v \<noteq> 0) (board g) = []"
    by (auto simp: filter_empty_conv)
  from assms(2) have a: "filter (\<lambda>row. \<not> (\<forall>v \<in> set row. v \<noteq> 0)) (board g) = board g"
    by (auto simp: filter_id_conv)
  have c: "clearRows (board g) = (board g, 0)"
    unfolding clearRows_spec [OF assms(1)] e a by simp
  then have l: "clearLines g = g"
    by (simp add: clearLines_def scoreUpdate_def)
  from c l show ?thesis by simp
qed


text \<open>
  The bottom row lacks the four middle cells; a flat I piece fills them. The row is
  removed and an empty row is put on top.
\<close>

theorem clearLines_compacts_witness:
  "lockCells (replicate 19 (replicate 10 0) @ [[1, 1, 1, 0, 0, 0, 0, 1, 1, 1]]) 0
      [P 3 19, P 4 19, P 5 19, P 6 19] =
     Inr (replicate 19 (replicate 10 0) @ [replicate 10 1], False) \<and>
   board (clearLines ((zeroGame zeroRng)
       \<lparr>board := replicate 19 (replicate 10 0) @ [replicate 10 1]\<rparr>)) =
     replicate 10 0 # replicate 19 (replicate 10 0) \<and>
   lines (clearLines ((zeroGame zeroRng)
       \<lparr>board := replicate 19 (replicate 10 0) @ [replicate 10 1]\<rparr>)) = 1 \<and>
   snd (clearRows (replicate 19 (replicate 10 0) @ [replicate 10 1])) \<le> 4"
proof -
  let ?g = "(zeroGame zeroRng)\<lparr>board := replicate 19 (replicate 10 0) @ [replicate 10 1]\<rparr>"
  have w: "wf_board (board ?g)"
    by (simp add: wf_board_def boardH_def boardW_def list_all_iff)
  have l: "lockCells (replicate 19 (replicate 10 0) @ [[1, 1, 1, 0, 0, 0, 0, 1, 1, 1]]) 0
      [P 3 19, P 4 19, P 5 19, P 6 19] =
     Inr (replicate 19 (replicate 10 0) @ [replicate 10 1], False)"
    by code_simp
  have h: "wf_board (replicate 19 (replicate 10 0) @ [[1, 1, 1, 0, 0, 0, 0, 1, 1, 1]]) \<and>
      (\<forall>row \<in> set (replicate 19 (replicate 10 0) @ [[1, 1, 1, 0, 0, 0, 0, 1, 1, 1]]).
         \<exists>v \<in> set row. v = (0::int)) \<and>
      length [P 3 19, P 4 19, P 5 19, P 6 19] \<le> 4"
    by (simp add: wf_board_def boardH_def boardW_def list_all_iff)
  have c1: "snd (clearRows (replicate 19 (replicate 10 0) @ [replicate 10 1])) = 1"
    by code_simp
  note t = clearLines_compacts [OF w]
  from t have b: "board (clearLines ?g) = replicate 10 0 # replicate 19 (replicate 10 0)"
    by (simp add: boardW_def flip: replicate_add)
  from t c1 have n: "lines (clearLines ?g) = 1"
    by (simp add: zeroGame_def wrap64_def)
  from t h l have "snd (clearRows (replicate 19 (replicate 10 0) @ [replicate 10 1])) \<le> 4"
    by simp
  with l b n show ?thesis by simp
qed

text \<open>
  A board whose bottom row is partly filled.
\<close>

theorem clearRows_no_full_witness:
  "clearRows (replicate 19 (replicate 10 0) @ [[1, 1, 1, 0, 0, 0, 0, 1, 1, 1]]) =
     (replicate 19 (replicate 10 0) @ [[1, 1, 1, 0, 0, 0, 0, 1, 1, 1]], 0) \<and>
   clearLines ((zeroGame zeroRng)
       \<lparr>board := replicate 19 (replicate 10 0) @ [[1, 1, 1, 0, 0, 0, 0, 1, 1, 1]]\<rparr>) =
     (zeroGame zeroRng)
       \<lparr>board := replicate 19 (replicate 10 0) @ [[1, 1, 1, 0, 0, 0, 0, 1, 1, 1]]\<rparr>"
  using clearRows_no_full [of "(zeroGame zeroRng)
       \<lparr>board := replicate 19 (replicate 10 0) @ [[1, 1, 1, 0, 0, 0, 0, 1, 1, 1]]\<rparr>"]
  by (simp add: wf_board_def boardH_def boardW_def list_all_iff)

section \<open>The randomizer\<close>

lemma swapBag_mset:
  "i < length xs \<Longrightarrow> j < length xs \<Longrightarrow> mset (swapBag xs i j) = mset xs"
  unfolding swapBag_def by (rule mset_swap)

lemma swapBag_length [simp]: "length (swapBag xs i j) = length xs"
  by (simp add: swapBag_def)

lemma shuffleLoop_mset:
  "i < length xs \<Longrightarrow> mset (fst (shuffleLoop i xs r)) = mset xs"
proof (induction i arbitrary: xs r)
  case 0
  then show ?case by simp
next
  case (Suc i)
  have "r 0 mod (Suc i + 1) < Suc i + 1" by simp
  with Suc.prems have j: "r 0 mod (Suc i + 1) < length xs" by linarith
  from Suc.prems have "i < length (swapBag xs (Suc i) (r 0 mod (Suc i + 1)))" by simp
  from Suc.IH [OF this] Suc.prems j show ?case
    by (simp add: Let_def swapBag_mset)
qed

lemma Shuffle_mset: "mset (fst (Shuffle xs r)) = mset xs"
  by (cases xs) (simp_all add: Shuffle_def shuffleLoop_mset)

lemma popBag_nonempty:
  "bag g = v # rest \<Longrightarrow> popBag g = Inr (v, g\<lparr>bag := rest\<rparr>)"
  by (simp add: popBag_def)

lemma popBag_refill:
  assumes "bag g = []"
  shows "popBag g = popBag (g\<lparr>bag := fst (Shuffle [0, 1, 2, 3, 4, 5, 6] (rng g)),
                             rng := snd (Shuffle [0, 1, 2, 3, 4, 5, 6] (rng g))\<rparr>)"
proof -
  have "mset (fst (Shuffle [0, 1, 2, 3, 4, 5, 6] (rng g))) = mset [0, 1, 2, 3, 4, 5, 6]"
    by (rule Shuffle_mset)
  then have "fst (Shuffle [0, 1, 2, 3, 4, 5, 6] (rng g)) \<noteq> []" by auto
  with assms show ?thesis
    by (simp add: popBag_def split_beta)
qed

lemma drawN_from_bag:
  "n \<le> length (bag g) \<Longrightarrow> drawN n g = Inr (take n (bag g), g\<lparr>bag := drop n (bag g)\<rparr>)"
proof (induction n arbitrary: g)
  case 0
  then show ?case by simp
next
  case (Suc n)
  then obtain v rest where b: "bag g = v # rest" by (cases "bag g") auto
  with Suc.prems have "n \<le> length (bag (g\<lparr>bag := rest\<rparr>))" by simp
  from Suc.IH [OF this] b show ?case
    by (simp add: popBag_nonempty)
qed

lemma drawN_group:
  assumes "bag g = []"
  shows "drawN 7 g = Inr (fst (Shuffle [0, 1, 2, 3, 4, 5, 6] (rng g)),
                          g\<lparr>bag := [], rng := snd (Shuffle [0, 1, 2, 3, 4, 5, 6] (rng g))\<rparr>)"
proof -
  let ?b = "fst (Shuffle [0, 1, 2, 3, 4, 5, 6] (rng g))"
  let ?g1 = "g\<lparr>bag := ?b, rng := snd (Shuffle [0, 1, 2, 3, 4, 5, 6] (rng g))\<rparr>"
  have "mset ?b = mset [0, 1, 2, 3, 4, 5, 6]" by (rule Shuffle_mset)
  then have "size (mset ?b) = 7" by simp
  then have len: "length ?b = 7" by simp
  have "drawN 7 g = drawN 7 ?g1"
    using popBag_refill [OF assms] by (simp add: eval_nat_numeral)
  also have "\<dots> = Inr (take 7 (bag ?g1), ?g1\<lparr>bag := drop 7 (bag ?g1)\<rparr>)"
    by (rule drawN_from_bag) (simp add: len)
  finally show ?thesis by (simp add: len)
qed

lemma drawN_add:
  "drawN (m + n) g =
     bindE (drawN m g) (\<lambda>(vs, g1). bindE (drawN n g1) (\<lambda>(ws, g2). Inr (vs @ ws, g2)))"
proof (induction m arbitrary: g)
  case 0
  show ?case by (cases "drawN n g") (auto simp: split_beta)
next
  case (Suc m)
  show ?case
    by (cases "popBag g") (auto simp: Suc.IH split_beta bindE_def split: sum.splits)
qed

text \<open>
  Claim C7. From a bag boundary, for any random source and any number \<open>n\<close> of groups, the
  \<open>7 * n\<close> next draws all return, end at a bag boundary, and each of the \<open>n\<close> consecutive
  groups of 7 draws holds every kind \<open>0..6\<close> exactly once.
\<close>

theorem bag_groups_permute:
  assumes "bag g = []"
  shows "\<exists>vs g'. drawN (7 * n) g = Inr (vs, g') \<and> bag g' = [] \<and> length vs = 7 * n \<and>
           (\<forall>i<n. mset (take 7 (drop (7 * i) vs)) = mset [0, 1, 2, 3, 4, 5, 6])"
  using assms
proof (induction n arbitrary: g)
  case 0
  then show ?case by simp
next
  case (Suc n)
  let ?b = "fst (Shuffle [0, 1, 2, 3, 4, 5, 6] (rng g))"
  let ?g1 = "g\<lparr>bag := [], rng := snd (Shuffle [0, 1, 2, 3, 4, 5, 6] (rng g))\<rparr>"
  have p: "mset ?b = mset [0, 1, 2, 3, 4, 5, 6]" by (rule Shuffle_mset)
  then have "size (mset ?b) = 7" by simp
  then have len: "length ?b = 7" by simp
  have "bag ?g1 = []" by simp
  from Suc.IH [OF this] obtain vs g' where
    d: "drawN (7 * n) ?g1 = Inr (vs, g')" and b: "bag g' = []" and l: "length vs = 7 * n"
    and q: "\<forall>i<n. mset (take 7 (drop (7 * i) vs)) = mset [0, 1, 2, 3, 4, 5, 6]"
    by blast
  have "drawN (7 * Suc n) g = drawN (7 + 7 * n) g" by simp
  also have "\<dots> = Inr (?b @ vs, g')"
    by (simp only: drawN_add drawN_group [OF Suc.prems] bindE_Inr split_conv d)
  finally have d': "drawN (7 * Suc n) g = Inr (?b @ vs, g')" .
  have "mset (take 7 (drop (7 * i) (?b @ vs))) = mset [0, 1, 2, 3, 4, 5, 6]" if "i < Suc n" for i
  proof (cases i)
    case 0
    with p len show ?thesis by simp
  next
    case (Suc k)
    with that q len show ?thesis by simp
  qed
  with d' b l len show ?case by simp
qed

text \<open>
  Two groups drawn from the fresh game state with the source \<open>0, 1, 2, ...\<close>.
\<close>

theorem bag_groups_permute_witness:
  "\<exists>vs g'. drawN 14 (zeroGame (\<lambda>n. n)) = Inr (vs, g') \<and>
     mset (take 7 vs) = mset [0, 1, 2, 3, 4, 5, 6] \<and>
     mset (take 7 (drop 7 vs)) = mset [0, 1, 2, 3, 4, 5, 6]"
proof -
  have "bag (zeroGame (\<lambda>n. n)) = []" by (simp add: zeroGame_def)
  from bag_groups_permute [OF this, of 2] obtain vs g' where
    d: "drawN 14 (zeroGame (\<lambda>n. n)) = Inr (vs, g')"
    and q: "\<forall>i<2. mset (take 7 (drop (7 * i) vs)) = mset [0, 1, 2, 3, 4, 5, 6]"
    by auto
  from q [rule_format, of 0] q [rule_format, of 1]
  have "mset (take 7 vs) = mset [0, 1, 2, 3, 4, 5, 6]"
    and "mset (take 7 (drop 7 vs)) = mset [0, 1, 2, 3, 4, 5, 6]"
    by simp_all
  with d show ?thesis by blast
qed

text \<open>
  The first group with that source.
\<close>

lemma first_bag_example:
  "map_sum id fst (drawN 7 (zeroGame (\<lambda>n. n))) = Inr [6, 4, 5, 3, 2, 1, 0]"
  by code_simp

section \<open>Rotation with wall kicks\<close>

lemma collides_total:
  assumes "0 \<le> kind ap" "kind ap < 7" "0 \<le> rot ap" "rot ap < 4"
  shows "\<exists>c. collides g ap = Inr c"
  using assms by (simp add: collides_def pieceCells_def shapeAt_def)

lemma rotateKicks_find:
  assumes "\<forall>ox \<in> set oxs. \<exists>c. collides g (next\<lparr>ax := ax next + ox\<rparr>) = Inr c"
  shows "rotateKicks g next oxs =
     (case find (\<lambda>ox. collides g (next\<lparr>ax := ax next + ox\<rparr>) = Inr False) oxs of
        None \<Rightarrow> Inr (False, g)
      | Some ox \<Rightarrow> Inr (True, g\<lparr>cur := next\<lparr>ax := ax next + ox\<rparr>\<rparr>))"
  using assms
proof (induction oxs)
  case Nil
  show ?case by simp
next
  case (Cons ox oxs)
  from Cons.prems obtain c where c: "collides g (next\<lparr>ax := ax next + ox\<rparr>) = Inr c"
    by auto
  from Cons.prems have "\<forall>ox \<in> set oxs. \<exists>c. collides g (next\<lparr>ax := ax next + ox\<rparr>) = Inr c"
    by simp
  from Cons.IH [OF this] c show ?case
    by (cases c) (simp_all add: Let_def)
qed

lemma rot_smod:
  assumes "0 \<le> r" "r < 4" "d = 1 \<or> d = -1"
  shows "(r + d + 4) smod 4 = (r + d) mod (4::int)"
  using rot_cases [OF assms(1,2)] assms(3)
  by (elim disjE) (simp_all add: signed_modulo_int_def)

text \<open>
  Claim C4. For every board, every active piece of the table and every direction \<open>d\<close> in
  \<open>{+1, -1}\<close>, \<^verbatim>\<open>tryRotate\<close> takes the candidate rotation \<open>(rot + d) mod 4\<close> at the same anchor,
  tries the horizontal offsets \<open>0, -1, +1, -2, +2\<close> in this order, commits the first offset
  whose placement does not collide and returns true; the board and every other field stay
  as they are. When none of the five is valid it returns false and the whole state is
  unchanged.
\<close>

theorem tryRotate_kicks:
  assumes "0 \<le> kind (cur g)" "kind (cur g) < 7" "0 \<le> rot (cur g)" "rot (cur g) < 4"
    and "d = 1 \<or> d = -1"
  shows "tryRotate g d =
     (case find (\<lambda>ox. collides g
                    ((cur g)\<lparr>rot := (rot (cur g) + d) mod 4, ax := ax (cur g) + ox\<rparr>) = Inr False)
             [0, -1, 1, -2, 2] of
        None \<Rightarrow> Inr (False, g)
      | Some ox \<Rightarrow>
          Inr (True, g\<lparr>cur := (cur g)\<lparr>rot := (rot (cur g) + d) mod 4, ax := ax (cur g) + ox\<rparr>\<rparr>))"
proof -
  let ?next = "(cur g)\<lparr>rot := (rot (cur g) + d) mod 4\<rparr>"
  have r: "(rot (cur g) + d + 4) smod 4 = (rot (cur g) + d) mod 4"
    by (rule rot_smod) (use assms in auto)
  have "\<exists>c. collides g (?next\<lparr>ax := ax ?next + ox\<rparr>) = Inr c" for ox
    by (rule collides_total) (use assms in simp_all)
  then have "\<forall>ox \<in> set [0, -1, 1, -2, 2]. \<exists>c. collides g (?next\<lparr>ax := ax ?next + ox\<rparr>) = Inr c"
    by blast
  from rotateKicks_find [OF this] show ?thesis
    by (simp add: tryRotate_def r)
qed


text \<open>
  A vertical I piece in column 0 of the empty board turns flat with the kick \<open>+2\<close>, the last
  offset tried. In a well one cell wide no offset is valid and nothing changes.
\<close>

theorem tryRotate_kicks_witness:
  "tryRotate ((zeroGame zeroRng)\<lparr>cur := \<lparr>kind = 0, rot = 1, ax = -2, ay = 5\<rparr>\<rparr>) 1 =
     Inr (True, (zeroGame zeroRng)\<lparr>cur := \<lparr>kind = 0, rot = 2, ax = 0, ay = 5\<rparr>\<rparr>) \<and>
   tryRotate ((zeroGame zeroRng)
       \<lparr>board := replicate 5 (replicate 10 0) @ replicate 4 [0, 1, 1, 1, 1, 1, 1, 1, 1, 1] @
                 replicate 11 (replicate 10 0),
        cur := \<lparr>kind = 0, rot = 1, ax = -2, ay = 5\<rparr>\<rparr>) 1 =
     Inr (False, (zeroGame zeroRng)
       \<lparr>board := replicate 5 (replicate 10 0) @ replicate 4 [0, 1, 1, 1, 1, 1, 1, 1, 1, 1] @
                 replicate 11 (replicate 10 0),
        cur := \<lparr>kind = 0, rot = 1, ax = -2, ay = 5\<rparr>\<rparr>)"
  using tryRotate_kicks [of "(zeroGame zeroRng)\<lparr>cur := \<lparr>kind = 0, rot = 1, ax = -2, ay = 5\<rparr>\<rparr>" 1]
    tryRotate_kicks [of "(zeroGame zeroRng)
       \<lparr>board := replicate 5 (replicate 10 0) @ replicate 4 [0, 1, 1, 1, 1, 1, 1, 1, 1, 1] @
                 replicate 11 (replicate 10 0),
        cur := \<lparr>kind = 0, rot = 1, ax = -2, ay = 5\<rparr>\<rparr>" 1]
  by (simp add: zeroGame_def collides_def pieceCells_def shapeAt_def pieceShapes_def
      boardW_def boardH_def nth_append eval_nat_numeral)

section \<open>Locking a piece\<close>

lemma setCell_nth:
  assumes "wf_board b" "setCell b p v = Inr b'"
    and "0 \<le> x" "x < boardW" "0 \<le> y" "y < boardH"
  shows "b' ! nat y ! nat x = (if P x y = p then v else b ! nat y ! nat x)"
proof -
  from assms(2) have r: "0 \<le> py p" "py p < boardH" "0 \<le> px p" "px p < boardW"
    and b': "b' = b[nat (py p) := (b ! nat (py p))[nat (px p) := v]]"
    by (auto simp: setCell_def split: if_splits)
  from assms(1) r have ly: "nat (py p) < length b" by (simp add: wf_board_def)
  with assms(1) r have lx: "nat (px p) < length (b ! nat (py p))"
    by (simp add: wf_board_def list_all_length)
  have e: "P x y = p \<longleftrightarrow> nat y = nat (py p) \<and> nat x = nat (px p)"
    using assms(3,5) r by (cases p) auto
  show ?thesis
    unfolding b' e using ly lx by (auto simp: nth_list_update)
qed

lemma lockCells_all:
  assumes "wf_board b"
    and "\<forall>p \<in> set cs. 0 \<le> px p \<and> px p < boardW \<and> 0 \<le> py p \<and> py p < boardH"
  shows "\<exists>b'. lockCells b k cs = Inr (b', False) \<and> wf_board b' \<and>
           (\<forall>x y. 0 \<le> x \<and> x < boardW \<and> 0 \<le> y \<and> y < boardH \<longrightarrow>
              b' ! nat y ! nat x = (if P x y \<in> set cs then k + 1 else b ! nat y ! nat x))"
  using assms
proof (induction cs arbitrary: b)
  case Nil
  then show ?case by simp
next
  case (Cons p ps)
  from Cons.prems(2) have inb: "0 \<le> px p" "px p < boardW" "0 \<le> py p" "py p < boardH"
    by simp_all
  then obtain b1 where s: "setCell b p (k + 1) = Inr b1"
    by (simp add: setCell_def)
  from setCell_wf [OF s Cons.prems(1)] have w1: "wf_board b1" .
  from Cons.prems(2) have "\<forall>p \<in> set ps. 0 \<le> px p \<and> px p < boardW \<and> 0 \<le> py p \<and> py p < boardH"
    by simp
  from Cons.IH [OF w1 this] obtain b' where
    l: "lockCells b1 k ps = Inr (b', False)" and w: "wf_board b'"
    and c: "\<forall>x y. 0 \<le> x \<and> x < boardW \<and> 0 \<le> y \<and> y < boardH \<longrightarrow>
              b' ! nat y ! nat x = (if P x y \<in> set ps then k + 1 else b1 ! nat y ! nat x)"
    by blast
  have "lockCells b k (p # ps) = Inr (b', False)"
    using inb s l by simp
  moreover have "b' ! nat y ! nat x = (if P x y \<in> set (p # ps) then k + 1 else b ! nat y ! nat x)"
    if "0 \<le> x \<and> x < boardW \<and> 0 \<le> y \<and> y < boardH" for x y
    using that c setCell_nth [OF Cons.prems(1) s, of x y] by auto
  ultimately show ?case using w by blast
qed

lemma lockCells_overflow_first:
  assumes "sorted (map py cs)" "\<exists>p \<in> set cs. py p < 0"
  shows "lockCells b k cs = Inr (b, True)"
proof (cases cs)
  case Nil
  with assms(2) show ?thesis by simp
next
  case (Cons p ps)
  with assms have "py p < 0" by fastforce
  with Cons show ?thesis by simp
qed

lemma sorted_shift: "sorted (map py src) \<Longrightarrow> sorted (map (\<lambda>p. a + py p) src)"
  by (induction src) auto

lemma pieceCells_sorted:
  assumes "pieceCells ap = Inr cs"
  shows "sorted (map py cs)"
proof -
  from assms obtain src where src: "shapeAt (kind ap) (rot ap) = Inr src"
    and cs: "cs = map (\<lambda>p. P (ax ap + px p) (ay ap + py p)) src"
    by (auto simp: pieceCells_def bindE_eq_Inr)
  from shapeAt_cells [OF src] have "sorted (map py src)" by simp
  from sorted_shift [OF this, of "ay ap"] show ?thesis by (simp add: cs comp_def)
qed

text \<open>
  Claim C2, amended. For a piece whose cells are within the bounds on \<open>x\<close> and above row
  \<open>H\<close>, the loop of \<^verbatim>\<open>lockPiece\<close> signals overflow if and only if a cell of the piece has
  \<open>y < 0\<close>. In that case no cell is written: every shape lists its cells from the top row
  down, so the loop returns at its first cell, sets \<^verbatim>\<open>gameOver\<close> and does nothing else.
  Otherwise \<open>kind + 1\<close> is written into every occupied cell, every other cell keeps its
  value, and the lock goes on with the line clear and the next spawn.
\<close>

theorem lockPiece_place:
  assumes "wf_board (board g)" and "pieceCells (cur g) = Inr cs"
    and "\<forall>p \<in> set cs. 0 \<le> px p \<and> px p < boardW \<and> py p < boardH"
  shows "\<exists>b'. lockCells (board g) (kind (cur g)) cs = Inr (b', \<exists>p \<in> set cs. py p < 0) \<and>
     (if \<exists>p \<in> set cs. py p < 0
      then b' = board g \<and> lockPiece g = Inr (g\<lparr>gameOver := True\<rparr>)
      else (\<forall>p \<in> set cs. b' ! nat (py p) ! nat (px p) = kind (cur g) + 1) \<and>
           (\<forall>x y. 0 \<le> x \<and> x < boardW \<and> 0 \<le> y \<and> y < boardH \<and> P x y \<notin> set cs \<longrightarrow>
              b' ! nat y ! nat x = board g ! nat y ! nat x) \<and>
           lockPiece g = spawn (clearLines (g\<lparr>board := b'\<rparr>)))"
proof (cases "\<exists>p \<in> set cs. py p < 0")
  case True
  from lockCells_overflow_first [OF pieceCells_sorted [OF assms(2)] True]
  have l: "lockCells (board g) (kind (cur g)) cs = Inr (board g, True)" .
  then have "lockPiece g = Inr (g\<lparr>gameOver := True\<rparr>)"
    by (simp add: lockPiece_def assms(2))
  with l True show ?thesis by simp
next
  case False
  with assms(3) have
    "\<forall>p \<in> set cs. 0 \<le> px p \<and> px p < boardW \<and> 0 \<le> py p \<and> py p < boardH"
    by (auto simp: not_less)
  note inb = this
  from lockCells_all [OF assms(1) inb, of "kind (cur g)"] obtain b' where
    l: "lockCells (board g) (kind (cur g)) cs = Inr (b', False)"
    and c: "\<forall>x y. 0 \<le> x \<and> x < boardW \<and> 0 \<le> y \<and> y < boardH \<longrightarrow>
      b' ! nat y ! nat x = (if P x y \<in> set cs then kind (cur g) + 1 else board g ! nat y ! nat x)"
    by blast
  have w: "b' ! nat (py p) ! nat (px p) = kind (cur g) + 1" if "p \<in> set cs" for p
    using that inb c [rule_format, of "px p" "py p"] by simp
  have u: "b' ! nat y ! nat x = board g ! nat y ! nat x"
    if "0 \<le> x \<and> x < boardW \<and> 0 \<le> y \<and> y < boardH \<and> P x y \<notin> set cs" for x y
    using that c [rule_format, of x y] by simp
  have "lockPiece g = spawn (clearLines (g\<lparr>board := b'\<rparr>))"
    by (simp add: lockPiece_def assms(2) l)
  with l False w u show ?thesis by auto
qed


text \<open>
  Claim C2, as stated, fails where it says that the cells with \<open>y \<ge> 0\<close> are written even
  when overflow is signalled. A T piece anchored at \<open>(3, -1)\<close> on the empty board has the
  cells \<open>(4, -1), (3, 0), (4, 0), (5, 0)\<close>. The loop of \<^verbatim>\<open>lockPiece\<close> returns at the first
  cell: the game is over and the cell \<open>(3, 0)\<close> is still empty, not \<open>kind + 1 = 3\<close>.
\<close>

theorem lockPiece_overflow_counterexample:
  "pieceCells \<lparr>kind = 2, rot = 0, ax = 3, ay = -1\<rparr> = Inr [P 4 (-1), P 3 0, P 4 0, P 5 0] \<and>
   lockPiece ((zeroGame zeroRng)\<lparr>cur := \<lparr>kind = 2, rot = 0, ax = 3, ay = -1\<rparr>\<rparr>) =
     Inr ((zeroGame zeroRng)\<lparr>cur := \<lparr>kind = 2, rot = 0, ax = 3, ay = -1\<rparr>, gameOver := True\<rparr>) \<and>
   board ((zeroGame zeroRng)\<lparr>cur := \<lparr>kind = 2, rot = 0, ax = 3, ay = -1\<rparr>, gameOver := True\<rparr>)
     ! 0 ! 3 = 0"
  by (simp add: lockPiece_def pieceCells_def shapeAt_def pieceShapes_def zeroGame_def
      boardW_def boardH_def)

text \<open>
  The T piece above the top edge, and the same piece resting on the floor.
\<close>

theorem lockPiece_place_witness:
  "lockPiece ((zeroGame zeroRng)\<lparr>cur := \<lparr>kind = 2, rot = 0, ax = 3, ay = -1\<rparr>\<rparr>) =
     Inr ((zeroGame zeroRng)\<lparr>cur := \<lparr>kind = 2, rot = 0, ax = 3, ay = -1\<rparr>, gameOver := True\<rparr>) \<and>
   (\<exists>b'. lockCells (board (zeroGame zeroRng)) 2 [P 4 18, P 3 19, P 4 19, P 5 19] =
           Inr (b', False) \<and>
         b' ! 18 ! 4 = 3 \<and> b' ! 19 ! 3 = 3 \<and> b' ! 19 ! 4 = 3 \<and> b' ! 19 ! 5 = 3 \<and>
         b' ! 18 ! 3 = 0)"
proof -
  let ?g0 = "(zeroGame zeroRng)\<lparr>cur := \<lparr>kind = 2, rot = 0, ax = 3, ay = -1\<rparr>\<rparr>"
  let ?g1 = "(zeroGame zeroRng)\<lparr>cur := \<lparr>kind = 2, rot = 0, ax = 3, ay = 18\<rparr>\<rparr>"
  have w0: "wf_board (board ?g0)" and w1: "wf_board (board ?g1)"
    by (simp_all add: zeroGame_def wf_board_def boardH_def boardW_def list_all_iff)
  have c0: "pieceCells (cur ?g0) = Inr [P 4 (-1), P 3 0, P 4 0, P 5 0]"
    and c1: "pieceCells (cur ?g1) = Inr [P 4 18, P 3 19, P 4 19, P 5 19]"
    by (simp_all add: pieceCells_def shapeAt_def pieceShapes_def)
  have i0: "\<forall>p \<in> set [P 4 (-1), P 3 0, P 4 0, P 5 0]. 0 \<le> px p \<and> px p < boardW \<and> py p < boardH"
    and i1: "\<forall>p \<in> set [P 4 18, P 3 19, P 4 19, P 5 19]. 0 \<le> px p \<and> px p < boardW \<and> py p < boardH"
    by (simp_all add: boardW_def boardH_def)
  from lockPiece_place [OF w0 c0 i0]
  have a: "lockPiece ?g0 = Inr (?g0\<lparr>gameOver := True\<rparr>)" by simp
  from lockPiece_place [OF w1 c1 i1] obtain b' where
    l: "lockCells (board ?g1) (kind (cur ?g1)) [P 4 18, P 3 19, P 4 19, P 5 19] = Inr (b', False)"
    and c: "\<forall>p \<in> set [P 4 18, P 3 19, P 4 19, P 5 19].
              b' ! nat (py p) ! nat (px p) = kind (cur ?g1) + 1"
    and u: "\<forall>x y. 0 \<le> x \<and> x < boardW \<and> 0 \<le> y \<and> y < boardH \<and>
              P x y \<notin> set [P 4 18, P 3 19, P 4 19, P 5 19] \<longrightarrow>
              b' ! nat y ! nat x = board ?g1 ! nat y ! nat x"
    by auto
  from u [rule_format, of 3 18] have "b' ! 18 ! 3 = 0"
    by (simp add: boardW_def boardH_def zeroGame_def)
  with a l c show ?thesis by auto
qed

section \<open>Hard drop and the ghost projection\<close>

lemma collides_cur_irrelevant [simp]: "collides (g\<lparr>cur := c\<rparr>) ap = collides g ap"
  by (simp add: collides_def)

lemma collides_same_shape:
  "collides g ap = Inr c \<Longrightarrow> \<exists>c'. collides g (ap\<lparr>ay := v\<rparr>) = Inr c'"
  by (auto simp: collides_def pieceCells_def bindE_eq_Inr)

lemma ghost_step_piece:
  "\<lparr>kind = kind ghost, rot = rot ghost, ax = ax ghost, ay = v\<rparr> = ghost\<lparr>ay := v\<rparr>"
  by (cases ghost) simp

lemma tryMove_down:
  "tryMove g 0 1 =
     bindE (collides g ((cur g)\<lparr>ay := ay (cur g) + 1\<rparr>)) (\<lambda>c.
       if \<not> c then Inr (True, g\<lparr>cur := (cur g)\<lparr>ay := ay (cur g) + 1\<rparr>\<rparr>) else Inr (False, g))"
  by (simp add: tryMove_def Let_def)

text \<open>
  The loop of \<^verbatim>\<open>hardDrop\<close> and the loop of \<^verbatim>\<open>ghostPieceY\<close> walk down the same rows: both stop
  at the first row from which one more step down collides.
\<close>

lemma drop_ghost:
  assumes "collides g ghost = Inr c0"
  shows "\<exists>y'. ghostLoop g ghost = Inr y' \<and>
           dropLoop (g\<lparr>cur := ghost\<rparr>) = Inr (g\<lparr>cur := ghost\<lparr>ay := y'\<rparr>\<rparr>) \<and>
           ay ghost \<le> y' \<and>
           (\<forall>y. ay ghost < y \<and> y \<le> y' \<longrightarrow> collides g (ghost\<lparr>ay := y\<rparr>) = Inr False) \<and>
           collides g (ghost\<lparr>ay := y' + 1\<rparr>) = Inr True"
  using assms
proof (induction g ghost arbitrary: c0 rule: ghostLoop.induct)
  case (1 g ghost)
  from collides_same_shape [OF "1.prems"] obtain c where
    c: "collides g (ghost\<lparr>ay := ay ghost + 1\<rparr>) = Inr c" by blast
  show ?case
  proof (cases c)
    case True
    with c have "ghostLoop g ghost = Inr (ay ghost)"
      by (subst ghostLoop.simps) (simp add: ghost_step_piece)
    moreover from c True have "dropLoop (g\<lparr>cur := ghost\<rparr>) = Inr (g\<lparr>cur := ghost\<rparr>)"
      by (subst dropLoop.simps) (simp add: tryMove_down)
    ultimately show ?thesis using c True by auto
  next
    case False
    let ?n = "ghost\<lparr>ay := ay ghost + 1\<rparr>"
    from c False have cn: "collides g ?n = Inr False" by simp
    from c have c': "collides g \<lparr>kind = kind ghost, rot = rot ghost, ax = ax ghost,
        ay = ay ghost + 1\<rparr> = Inr c"
      by (simp add: ghost_step_piece)
    from "1.IH" [OF c' _ cn] False obtain y' where
      gl: "ghostLoop g ?n = Inr y'"
      and dl: "dropLoop (g\<lparr>cur := ?n\<rparr>) = Inr (g\<lparr>cur := ?n\<lparr>ay := y'\<rparr>\<rparr>)"
      and le: "ay ?n \<le> y'"
      and va: "\<forall>y. ay ?n < y \<and> y \<le> y' \<longrightarrow> collides g (?n\<lparr>ay := y\<rparr>) = Inr False"
      and bl: "collides g (?n\<lparr>ay := y' + 1\<rparr>) = Inr True"
      by auto
    have "ghostLoop g ghost = Inr y'"
      using c False gl by (subst ghostLoop.simps) (simp add: ghost_step_piece)
    moreover have "dropLoop (g\<lparr>cur := ghost\<rparr>) = Inr (g\<lparr>cur := ghost\<lparr>ay := y'\<rparr>\<rparr>)"
      using c False dl by (subst dropLoop.simps) (simp add: tryMove_down)
    moreover have "collides g (ghost\<lparr>ay := y\<rparr>) = Inr False" if "ay ghost < y \<and> y \<le> y'" for y
    proof (cases "y = ay ghost + 1")
      case True
      with cn show ?thesis by simp
    next
      case False
      with that va [rule_format, of y] show ?thesis by simp
    qed
    ultimately show ?thesis using le bl by auto
  qed
qed

text \<open>
  Claim C3. For every board and every active piece in a valid placement, \<^verbatim>\<open>ghostPieceY\<close>
  returns a row \<open>y'\<close>, the loop of \<^verbatim>\<open>hardDrop\<close> ends with the piece (same kind, rotation
  and \<open>x\<close>) at row \<open>y'\<close>, and \<^verbatim>\<open>hardDrop\<close> locks it there: the loop that repeats the move
  \<open>(0, 1)\<close> until it fails is equivalent to the projection of \<^verbatim>\<open>ghostPieceY\<close>. The row \<open>y'\<close>
  is the maximal row down to which the piece is still a valid placement: the piece is
  valid at every row from the current one to \<open>y'\<close>, it collides at \<open>y' + 1\<close>, and every row
  \<open>y\<close> down to which the piece stays valid has \<open>y \<le> y'\<close>.
\<close>

theorem hardDrop_ghost:
  assumes "collides g (cur g) = Inr False"
  shows "\<exists>y'. ghostPieceY g = Inr y' \<and> lockRow g = Inr y' \<and>
           dropLoop g = Inr (g\<lparr>cur := (cur g)\<lparr>ay := y'\<rparr>\<rparr>) \<and>
           hardDrop g = bindE (lockPiece (g\<lparr>cur := (cur g)\<lparr>ay := y'\<rparr>\<rparr>))
                          (\<lambda>g2. Inr (g2\<lparr>dropFrameCounter := 0\<rparr>)) \<and>
           ay (cur g) \<le> y' \<and>
           (\<forall>y. ay (cur g) \<le> y \<and> y \<le> y' \<longrightarrow> collides g ((cur g)\<lparr>ay := y\<rparr>) = Inr False) \<and>
           collides g ((cur g)\<lparr>ay := y' + 1\<rparr>) = Inr True \<and>
           (\<forall>y. ay (cur g) \<le> y \<and>
                (\<forall>z. ay (cur g) \<le> z \<and> z \<le> y \<longrightarrow>
                   collides g ((cur g)\<lparr>ay := z\<rparr>) = Inr False) \<longrightarrow> y \<le> y')"
proof -
  from drop_ghost [OF assms] obtain y' where
    gl: "ghostLoop g (cur g) = Inr y'"
    and dl: "dropLoop (g\<lparr>cur := cur g\<rparr>) = Inr (g\<lparr>cur := (cur g)\<lparr>ay := y'\<rparr>\<rparr>)"
    and le: "ay (cur g) \<le> y'"
    and va: "\<forall>y. ay (cur g) < y \<and> y \<le> y' \<longrightarrow> collides g ((cur g)\<lparr>ay := y\<rparr>) = Inr False"
    and bl: "collides g ((cur g)\<lparr>ay := y' + 1\<rparr>) = Inr True"
    by blast
  from dl have dl': "dropLoop g = Inr (g\<lparr>cur := (cur g)\<lparr>ay := y'\<rparr>\<rparr>)" by simp
  then have lr: "lockRow g = Inr y'" by (simp add: lockRow_def)
  have st: "collides g ((cur g)\<lparr>ay := y\<rparr>) = Inr False" if "ay (cur g) \<le> y \<and> y \<le> y'" for y
  proof (cases "y = ay (cur g)")
    case True
    with assms show ?thesis by simp
  next
    case False
    with that va [rule_format, of y] show ?thesis by simp
  qed
  have mx: "y \<le> y'"
    if h: "ay (cur g) \<le> y \<and>
       (\<forall>z. ay (cur g) \<le> z \<and> z \<le> y \<longrightarrow> collides g ((cur g)\<lparr>ay := z\<rparr>) = Inr False)" for y
  proof (rule ccontr)
    assume "\<not> y \<le> y'"
    with le have "ay (cur g) \<le> y' + 1 \<and> y' + 1 \<le> y" by simp
    with h have "collides g ((cur g)\<lparr>ay := y' + 1\<rparr>) = Inr False" by blast
    with bl show False by simp
  qed
  from gl dl' lr le bl st mx show ?thesis
    by (auto simp: ghostPieceY_def hardDrop_def)
qed

text \<open>
  The example: ghost row and drop row are both 2, on top of the blocks of row 5.
\<close>

theorem hardDrop_ghost_witness:
  "ghostPieceY cavityGame = Inr 2 \<and> lockRow cavityGame = Inr 2 \<and>
   dropLoop cavityGame = Inr (cavityGame\<lparr>cur := \<lparr>kind = 1, rot = 0, ax = 3, ay = 2\<rparr>\<rparr>) \<and>
   collides cavityGame \<lparr>kind = 1, rot = 0, ax = 3, ay = 3\<rparr> = Inr True"
proof -
  have v: "collides cavityGame (cur cavityGame) = Inr False" by code_simp
  have g: "ghostPieceY cavityGame = Inr 2" by code_simp
  have c: "cur cavityGame = \<lparr>kind = 1, rot = 0, ax = 3, ay = 0\<rparr>"
    by (simp add: cavityGame_def)
  from hardDrop_ghost [OF v] g c show ?thesis by auto
qed

text \<open>
  The projection stops at the first obstacle. In the example the piece would fit again at
  row 17, in the empty region below the blocks, but it cannot stay valid down to there.
\<close>

lemma ghost_stops_at_obstacle:
  "ghostPieceY cavityGame = Inr 2 \<and>
   collides cavityGame ((cur cavityGame)\<lparr>ay := 3\<rparr>) = Inr True \<and>
   collides cavityGame ((cur cavityGame)\<lparr>ay := 17\<rparr>) = Inr False"
  by code_simp

text \<open>
  One case per piece kind, on the example board: the drop row and the ghost row agree.
\<close>

lemma drop_ghost_all_kinds:
  "map (\<lambda>k. (lockRow (cavityGame\<lparr>cur := \<lparr>kind = k, rot = 0, ax = 3, ay = 0\<rparr>\<rparr>),
              ghostPieceY (cavityGame\<lparr>cur := \<lparr>kind = k, rot = 0, ax = 3, ay = 0\<rparr>\<rparr>)))
       [0, 1, 2, 3, 4, 5, 6] =
     [(Inr 3, Inr 3), (Inr 2, Inr 2), (Inr 3, Inr 3), (Inr 3, Inr 3), (Inr 3, Inr 3),
      (Inr 3, Inr 3), (Inr 3, Inr 3)]"
  by code_simp

section \<open>The states a game reaches\<close>

lemma fits_valid:
  assumes "fits ap"
  shows "0 \<le> kind ap \<and> kind ap < 7 \<and> 0 \<le> rot ap \<and> rot ap < 4"
  using assms
  by (auto simp: fits_def pieceCells_def shapeAt_def split: sum.splits if_splits)

lemma collides_False_fits:
  assumes "collides g ap = Inr False" "0 \<le> ay ap"
  shows "fits ap"
proof -
  from assms(1) obtain src where src: "shapeAt (kind ap) (rot ap) = Inr src"
    and nc: "\<not> collidesCells (board g) (map (\<lambda>p. P (ax ap + px p) (ay ap + py p)) src)"
    by (auto simp: collides_def pieceCells_def bindE_eq_Inr)
  from shapeAt_cells [OF src] have "\<forall>p \<in> set src. 0 \<le> py p" by simp
  with nc assms(2) show ?thesis
    by (auto simp: fits_def pieceCells_def src collidesCells_valid list_all_iff)
qed

lemma spawn_fits:
  assumes "0 \<le> k" "k < 7"
  shows "fits \<lparr>kind = k, rot = 0, ax = 3, ay = 0\<rparr>"
proof -
  from assms have s: "shapeAt k 0 = Inr (pieceShapes ! nat k ! 0)"
    by (simp add: shapeAt_def)
  from shapeAt_cells [OF s] show ?thesis
    by (auto simp: fits_def pieceCells_def s list_all_iff boardW_def boardH_def)
qed

lemma Shuffle_set: "set (fst (Shuffle xs r)) = set xs"
  using Shuffle_mset [of xs r] by (rule mset_eq_setD)

lemma popBag_ok:
  assumes "bagOk (bag g)"
  shows "\<exists>v b r. popBag g = Inr (v, g\<lparr>bag := b, rng := r\<rparr>) \<and> 0 \<le> v \<and> v < 7 \<and> bagOk b"
proof (cases "bag g")
  case Nil
  let ?s = "Shuffle [0, 1, 2, 3, 4, 5, 6] (rng g)"
  have st: "set (fst ?s) = set [0, 1, 2, 3, 4, 5, 6]" by (rule Shuffle_set)
  then obtain v rest where vr: "fst ?s = v # rest" by (cases "fst ?s") auto
  have "\<forall>k \<in> set [0, 1, 2, 3, 4, 5, 6]. 0 \<le> k \<and> k < (7::int)" by simp
  with st have "\<forall>k \<in> set (fst ?s). 0 \<le> k \<and> k < 7" by (simp only:)
  with vr have "0 \<le> v \<and> v < 7 \<and> bagOk rest"
    by (simp add: bagOk_def list_all_iff)
  moreover from Nil vr have "popBag g = Inr (v, g\<lparr>bag := rest, rng := snd ?s\<rparr>)"
    by (simp add: popBag_def split_beta)
  ultimately show ?thesis by blast
next
  case (Cons v rest)
  then have "popBag g = Inr (v, g\<lparr>bag := rest, rng := rng g\<rparr>)"
    by (simp add: popBag_def)
  moreover from assms Cons have "0 \<le> v \<and> v < 7 \<and> bagOk rest"
    by (simp add: bagOk_def)
  ultimately show ?thesis by blast
qed

lemma collides_fields [simp]:
  "collides (g\<lparr>bag := b\<rparr>) ap = collides g ap"
  "collides (g\<lparr>rng := r\<rparr>) ap = collides g ap"
  "collides (g\<lparr>nextKind := k\<rparr>) ap = collides g ap"
  "collides (g\<lparr>gameOver := v\<rparr>) ap = collides g ap"
  "collides (g\<lparr>dropFrameCounter := n\<rparr>) ap = collides g ap"
  by (simp_all add: collides_def)

lemma collides_returns:
  assumes "0 \<le> kind ap \<and> kind ap < 7 \<and> 0 \<le> rot ap \<and> rot ap < 4"
  shows "\<exists>c. collides g ap = Inr c"
  using assms by (simp add: collides_def pieceCells_def shapeAt_def)

lemma spawn_ok:
  assumes "wf_board (board g)" "0 \<le> nextKind g" "nextKind g < 7" "bagOk (bag g)"
  shows "\<exists>g'. spawn g = Inr g' \<and> gameInv g' \<and> board g' = board g \<and>
           (gameOver g \<longrightarrow> gameOver g') \<and>
           score g' = score g \<and> lines g' = lines g \<and> level g' = level g"
proof -
  let ?c = "\<lparr>kind = nextKind g, rot = 0, ax = 3, ay = 0\<rparr>"
  from popBag_ok [of "g\<lparr>cur := ?c\<rparr>"] assms(4) obtain v b r where
    p: "popBag (g\<lparr>cur := ?c\<rparr>) = Inr (v, g\<lparr>cur := ?c, bag := b, rng := r\<rparr>)"
    and v: "0 \<le> v" "v < 7" and b: "bagOk b"
    by auto
  have f: "fits ?c" using assms(2,3) by (rule spawn_fits)
  from collides_returns [of ?c g] assms(2,3) obtain c where c: "collides g ?c = Inr c"
    by auto
  let ?g3 = "g\<lparr>cur := ?c, bag := b, rng := r, nextKind := v\<rparr>"
  have s: "spawn g = Inr (if c then ?g3\<lparr>gameOver := True\<rparr> else ?g3)"
    by (simp add: spawn_def Let_def p c)
  show ?thesis
  proof (cases c)
    case True
    with s assms(1) f v b show ?thesis by (simp add: gameInv_def)
  next
    case False
    with s assms(1) f v b c show ?thesis by (simp add: gameInv_def)
  qed
qed

lemma zeroGame_wf: "wf_board (board (zeroGame r))"
  by (simp add: zeroGame_def wf_board_def list_all_iff)

lemma NewGame_ok: "\<exists>g. NewGame r = Inr g \<and> gameInv g \<and>
    board g = replicate (nat boardH) (replicate (nat boardW) 0) \<and>
    score g = 0 \<and> lines g = 0 \<and> level g = 0"
proof -
  have "bagOk (bag (zeroGame r))" by (simp add: zeroGame_def bagOk_def)
  from popBag_ok [OF this] obtain v b r' where
    p: "popBag (zeroGame r) = Inr (v, (zeroGame r)\<lparr>bag := b, rng := r'\<rparr>)"
    and v: "0 \<le> v" "v < 7" and b: "bagOk b"
    by auto
  let ?g1 = "(zeroGame r)\<lparr>bag := b, rng := r', nextKind := v\<rparr>"
  have n: "NewGame r = spawn ?g1" by (simp add: NewGame_def p)
  have "wf_board (board ?g1)" "0 \<le> nextKind ?g1" "nextKind ?g1 < 7" "bagOk (bag ?g1)"
    using zeroGame_wf [of r] v b by simp_all
  from spawn_ok [OF this] show ?thesis
    unfolding n by (auto simp: zeroGame_def)
qed


lemma clearRows_wf:
  assumes "wf_board b"
  shows "wf_board (fst (clearRows b))"
proof -
  from assms have "length b = nat boardH" and rows: "\<forall>row \<in> set b. length row = nat boardW"
    by (simp_all add: wf_board_def list_all_iff)
  then show ?thesis
    using sum_length_filter_compl [of rowFull b]
    by (auto simp: clearRows_eq [OF assms] wf_board_def list_all_iff)
qed

lemma clearLines_fields:
  "board (clearLines g) = fst (clearRows (board g)) \<and> cur (clearLines g) = cur g \<and>
   nextKind (clearLines g) = nextKind g \<and> bag (clearLines g) = bag g \<and>
   gameOver (clearLines g) = gameOver g"
  by (simp add: clearLines_def scoreUpdate_def split_beta Let_def)

lemma fits_cells:
  assumes "fits ap"
  shows "\<exists>cs. pieceCells ap = Inr cs \<and>
           (\<forall>p \<in> set cs. 0 \<le> px p \<and> px p < boardW \<and> 0 \<le> py p \<and> py p < boardH)"
  using assms by (auto simp: fits_def list_all_iff split: sum.splits)

lemma lockPiece_ok:
  assumes "wf_board (board g)" "fits (cur g)" "0 \<le> nextKind g" "nextKind g < 7" "bagOk (bag g)"
  shows "\<exists>g'. lockPiece g = Inr g' \<and> gameInv g' \<and> (gameOver g \<longrightarrow> gameOver g')"
proof -
  from fits_cells [OF assms(2)] obtain cs where cs: "pieceCells (cur g) = Inr cs"
    and inb: "\<forall>p \<in> set cs. 0 \<le> px p \<and> px p < boardW \<and> 0 \<le> py p \<and> py p < boardH"
    by blast
  from lockCells_all [OF assms(1) inb, of "kind (cur g)"] obtain b' where
    l: "lockCells (board g) (kind (cur g)) cs = Inr (b', False)" and w: "wf_board b'"
    by blast
  let ?g1 = "clearLines (g\<lparr>board := b'\<rparr>)"
  have lp: "lockPiece g = spawn ?g1"
    by (simp add: lockPiece_def cs l)
  have f: "board ?g1 = fst (clearRows b')" "nextKind ?g1 = nextKind g" "bag ?g1 = bag g"
    "gameOver ?g1 = gameOver g"
    using clearLines_fields [of "g\<lparr>board := b'\<rparr>"] by simp_all
  have "wf_board (board ?g1)" "0 \<le> nextKind ?g1" "nextKind ?g1 < 7" "bagOk (bag ?g1)"
    using clearRows_wf [OF w] assms(3-5) by (simp_all add: f)
  from spawn_ok [OF this] show ?thesis
    unfolding lp by (auto simp: f)
qed

lemma tryMove_ok:
  assumes "gameInv g" "0 \<le> dy"
  shows "\<exists>m g'. tryMove g dx dy = Inr (m, g') \<and> gameInv g' \<and> gameOver g' = gameOver g"
proof -
  let ?n = "(cur g)\<lparr>ax := ax (cur g) + dx, ay := ay (cur g) + dy\<rparr>"
  from assms(1) have f: "fits (cur g)" and y: "0 \<le> ay (cur g)" by (simp_all add: gameInv_def)
  from fits_valid [OF f] collides_returns [of ?n g] obtain c where c: "collides g ?n = Inr c"
    by auto
  show ?thesis
  proof (cases c)
    case True
    with c have "tryMove g dx dy = Inr (False, g)" by (simp add: tryMove_def Let_def)
    with assms(1) show ?thesis by blast
  next
    case False
    with c have t: "tryMove g dx dy = Inr (True, g\<lparr>cur := ?n\<rparr>)"
      by (simp add: tryMove_def Let_def)
    from c False have cn: "collides g ?n = Inr False" by simp
    from y assms(2) have "0 \<le> ay ?n" by simp
    from collides_False_fits [OF cn this] have "fits ?n" .
    with assms cn y have "gameInv (g\<lparr>cur := ?n\<rparr>)" by (simp add: gameInv_def)
    with t show ?thesis by auto
  qed
qed

lemma rotateKicks_ok:
  assumes "gameInv g" "0 \<le> kind nx \<and> kind nx < 7 \<and> 0 \<le> rot nx \<and> rot nx < 4" "0 \<le> ay nx"
  shows "\<exists>m g'. rotateKicks g nx oxs = Inr (m, g') \<and> gameInv g' \<and> gameOver g' = gameOver g"
proof (induction oxs)
  case Nil
  have "rotateKicks g nx [] = Inr (False, g)" by simp
  with assms(1) show ?case by blast
next
  case (Cons ox oxs)
  let ?t = "nx\<lparr>ax := ax nx + ox\<rparr>"
  from assms(2) collides_returns [of ?t g] obtain c where c: "collides g ?t = Inr c" by auto
  show ?case
  proof (cases c)
    case True
    with c Cons.IH show ?thesis by (simp add: Let_def)
  next
    case False
    with c have cn: "collides g ?t = Inr False" by simp
    from assms(3) have "0 \<le> ay ?t" by simp
    from collides_False_fits [OF cn this] have "fits ?t" .
    with assms(1,3) cn have "gameInv (g\<lparr>cur := ?t\<rparr>)" by (simp add: gameInv_def)
    with cn show ?thesis by (auto simp: Let_def)
  qed
qed

lemma tryRotate_ok:
  assumes "gameInv g" "d = 1 \<or> d = -1"
  shows "\<exists>m g'. tryRotate g d = Inr (m, g') \<and> gameInv g' \<and> gameOver g' = gameOver g"
proof -
  from assms(1) have f: "fits (cur g)" and y: "0 \<le> ay (cur g)" by (simp_all add: gameInv_def)
  note v = fits_valid [OF f]
  from v assms(2) have r: "(rot (cur g) + d + 4) smod 4 = (rot (cur g) + d) mod 4"
    by (intro rot_smod) simp_all
  let ?nx = "(cur g)\<lparr>rot := (rot (cur g) + d) mod 4\<rparr>"
  have "0 \<le> kind ?nx \<and> kind ?nx < 7 \<and> 0 \<le> rot ?nx \<and> rot ?nx < 4" using v by simp
  from rotateKicks_ok [OF assms(1) this, of "[0, -1, 1, -2, 2]"] y show ?thesis
    by (simp add: tryRotate_def r)
qed

lemma dropLoop_ok:
  "gameInv g \<Longrightarrow> \<exists>g'. dropLoop g = Inr g' \<and> gameInv g' \<and> gameOver g' = gameOver g"
proof (induction g rule: dropLoop.induct)
  case (1 g)
  from tryMove_ok [OF "1.prems", of 1 0] obtain m g1 where
    t: "tryMove g 0 1 = Inr (m, g1)" and i: "gameInv g1" and o: "gameOver g1 = gameOver g"
    by auto
  show ?case
  proof (cases m)
    case True
    from "1.IH" [OF t refl True i] t True o show ?thesis
      by (subst dropLoop.simps) auto
  next
    case False
    with t i o show ?thesis by (subst dropLoop.simps) simp
  qed
qed

lemma gameInv_counter [simp]: "gameInv (g\<lparr>dropFrameCounter := n\<rparr>) = gameInv g"
  by (simp add: gameInv_def)

lemma lockPiece_inv:
  assumes "gameInv g"
  shows "\<exists>g'. lockPiece g = Inr g' \<and> gameInv g' \<and> (gameOver g \<longrightarrow> gameOver g')"
  using assms by (intro lockPiece_ok) (simp_all add: gameInv_def)

lemma okE_Inr [simp]: "okE (Inr g) = gameInv g"
  by (simp add: okE_def)

lemma okE_bindE:
  assumes "okE m" "\<And>g. gameInv g \<Longrightarrow> okE (f g)"
  shows "okE (bindE m f)"
  using assms by (cases m) (simp_all add: okE_def)

lemma okE_ignore:
  assumes "\<exists>m g'. r = Inr (m, g') \<and> gameInv g' \<and> Q g'"
  shows "okE (ignoreResult r)"
  using assms by (auto simp: ignoreResult_def)

lemma hardDrop_ok:
  assumes "gameInv g"
  shows "okE (hardDrop g)"
proof -
  from dropLoop_ok [OF assms] obtain g1 where d: "dropLoop g = Inr g1" and i: "gameInv g1"
    by blast
  from lockPiece_inv [OF i] obtain g2 where "lockPiece g1 = Inr g2" "gameInv g2" by blast
  with d show ?thesis by (simp add: hardDrop_def)
qed

lemma applyKeys_ok:
  assumes "gameInv g"
  shows "okE (applyKeys inp g)"
  unfolding applyKeys_def using assms
  by (intro okE_bindE)
     (auto intro!: okE_ignore tryMove_ok tryRotate_ok hardDrop_ok)


lemma okT_bindE:
  assumes "okE m" "\<And>g. gameInv g \<Longrightarrow> okT (f g)"
  shows "okT (bindE m f)"
  using assms by (cases m) (simp_all add: okE_def)

lemma okE_bindT:
  assumes "okT m" "\<And>g b. gameInv g \<Longrightarrow> okE (f (g, b))"
  shows "okE (bindE m f)"
  using assms by (cases m) (auto simp: okT_def)

lemma applyTouch_ok:
  assumes "gameInv g"
  shows "okT (applyTouch inp sd g)"
proof (cases "mobile inp")
  case True
  then show ?thesis
    unfolding applyTouch_def Let_def split_beta using assms
    by (simp only: if_True)
       (intro okT_bindE okE_bindE;
        auto intro!: okE_ignore tryMove_ok tryRotate_ok hardDrop_ok simp: okT_def)
next
  case False
  with assms show ?thesis by (simp add: applyTouch_def okT_def)
qed

lemma fallOrLock_ok:
  assumes "gameInv g"
  shows "okE (fallOrLock g)"
proof -
  from tryMove_ok [OF assms, of 1 0] obtain m g1 where
    t: "tryMove g 0 1 = Inr (m, g1)" and i: "gameInv g1"
    by auto
  from lockPiece_inv [OF i] obtain g2 where l: "lockPiece g1 = Inr g2" "gameInv g2" by blast
  show ?thesis
    by (cases m) (simp_all add: fallOrLock_def t i l)
qed

lemma gravityStep_ok:
  assumes "gameInv g"
  shows "okE (gravityStep sd g)"
  using assms by (simp add: gravityStep_def Let_def fallOrLock_ok)

lemma Update_ok:
  assumes "gameInv g"
  shows "okE (Update inp g)"
proof (cases "gameOver g")
  case True
  from NewGame_ok [of "freshRng inp"] obtain g' where
    "NewGame (freshRng inp) = Inr g'" "gameInv g'" by blast
  with True assms show ?thesis by (simp add: Update_def Reset_def)
next
  case False
  have "okE (bindE (applyKeys inp g) (\<lambda>g1.
          bindE (applyTouch inp (prDown inp \<or> prS inp) g1) (\<lambda>(g2, softDrop).
          gravityStep softDrop g2)))"
    by (intro okE_bindE okE_bindT applyKeys_ok applyTouch_ok assms)
       (simp_all add: gravityStep_ok)
  with False show ?thesis by (simp add: Update_def)
qed

lemma reachable_inv: "reachable g \<Longrightarrow> gameInv g"
proof (induction rule: reachable.induct)
  case (fresh r g)
  with NewGame_ok [of r] show ?case by auto
next
  case (frame g inp g')
  from Update_ok [OF frame.IH, of inp] frame.hyps(2) show ?case by simp
qed


text \<open>
  Claim C10. In every state reachable from a fresh game, with any inputs and any random
  sources, no call of \<^verbatim>\<open>Update\<close>, \<^verbatim>\<open>hardDrop\<close> or \<^verbatim>\<open>lockPiece\<close> panics: every index into the
  board and into the shape table is in range, within the frame too. The cells that
  \<^verbatim>\<open>lockPiece\<close> would write all have \<open>0 \<le> x < W\<close> and \<open>0 \<le> y < H\<close>, each such write succeeds,
  the board keeps its shape, and outside game over the active piece is a valid placement.
\<close>

theorem reachable_writes_in_bounds:
  assumes "reachable g"
  shows "(\<exists>g'. Update inp g = Inr g') \<and> (\<exists>g'. hardDrop g = Inr g') \<and>
         (\<exists>g'. lockPiece g = Inr g') \<and>
         (\<exists>cs. pieceCells (cur g) = Inr cs \<and>
            (\<forall>p \<in> set cs. 0 \<le> px p \<and> px p < boardW \<and> 0 \<le> py p \<and> py p < boardH \<and>
               (\<exists>b'. setCell (board g) p (kind (cur g) + 1) = Inr b'))) \<and>
         wf_board (board g) \<and>
         (gameOver g \<or> collides g (cur g) = Inr False)"
proof -
  from reachable_inv [OF assms] have i: "gameInv g" .
  from Update_ok [OF i, of inp] have u: "\<exists>g'. Update inp g = Inr g'"
    by (cases "Update inp g") (simp_all add: okE_def)
  from hardDrop_ok [OF i] have h: "\<exists>g'. hardDrop g = Inr g'"
    by (cases "hardDrop g") (simp_all add: okE_def)
  from lockPiece_inv [OF i] have l: "\<exists>g'. lockPiece g = Inr g'" by blast
  from i have f: "fits (cur g)" by (simp add: gameInv_def)
  from fits_cells [OF f] have c: "\<exists>cs. pieceCells (cur g) = Inr cs \<and>
            (\<forall>p \<in> set cs. 0 \<le> px p \<and> px p < boardW \<and> 0 \<le> py p \<and> py p < boardH \<and>
               (\<exists>b'. setCell (board g) p (kind (cur g) + 1) = Inr b'))"
    by (auto simp: setCell_def)
  from i u h l c show ?thesis by (simp add: gameInv_def)
qed

text \<open>
  The fresh game with the source \<open>0, 0, ...\<close> and a frame with a hard drop.
\<close>

theorem reachable_writes_in_bounds_witness:
  "\<exists>g. NewGame zeroRng = Inr g \<and> reachable g \<and>
     (\<exists>g'. Update (noInput\<lparr>jpSpace := True\<rparr>) g = Inr g') \<and> wf_board (board g)"
proof -
  from NewGame_ok [of zeroRng] obtain g where n: "NewGame zeroRng = Inr g" by blast
  then have r: "reachable g" by (rule reachable.fresh)
  from reachable_writes_in_bounds [OF r, of "noInput\<lparr>jpSpace := True\<rparr>"] n r
  show ?thesis by blast
qed

text \<open>
  That frame, computed: the O piece lies on the floor and the T piece is active.
\<close>

lemma first_frame_example:
  "bindE (NewGame zeroRng) (\<lambda>g.
     bindE (frames [noInput\<lparr>jpSpace := True\<rparr>] g) (\<lambda>g'. Inr (board g', kind (cur g')))) =
   Inr (replicate 18 (replicate 10 0) @
          [[0, 0, 0, 0, 2, 2, 0, 0, 0, 0], [0, 0, 0, 0, 2, 2, 0, 0, 0, 0]], 2)"
  by code_simp

section \<open>Game over\<close>

text \<open>
  Game over is left by a restart only.
\<close>

lemma frames_gameOver:
  assumes "gameOver g" "list_all (\<lambda>i. \<not> restartPressed i) inps"
  shows "frames inps g = Inr g"
  using assms(2)
proof (induction inps)
  case Nil
  show ?case by simp
next
  case (Cons inp inps)
  then have "Update inp g = Inr g"
    using assms(1) by (simp add: Update_def restartPressed_def)
  with Cons show ?case by simp
qed

text \<open>
  Claim C8. From a state with the game-over flag set, a call of \<^verbatim>\<open>Update\<close> without a
  restart-class input returns the state unchanged, whatever else is pressed; with one it
  returns the fresh game of \<^verbatim>\<open>Reset\<close> (empty board, counters at zero). So through any
  sequence of frames without a restart-class input the whole state stays as it is.
\<close>

theorem gameOver_frozen:
  assumes "gameOver g"
  shows "(if restartPressed inp
          then Update inp g = NewGame (freshRng inp) \<and>
               (\<exists>g'. NewGame (freshRng inp) = Inr g' \<and>
                  board g' = replicate (nat boardH) (replicate (nat boardW) 0) \<and>
                  score g' = 0 \<and> lines g' = 0 \<and> level g' = 0)
          else Update inp g = Inr g) \<and>
         (list_all (\<lambda>i. \<not> restartPressed i) inps \<longrightarrow> frames inps g = Inr g)"
proof -
  have a: "Update inp g = NewGame (freshRng inp)" if "restartPressed inp"
    using that assms by (simp add: Update_def Reset_def restartPressed_def)
  have b: "Update inp g = Inr g" if "\<not> restartPressed inp"
    using that assms by (simp add: Update_def restartPressed_def)
  from NewGame_ok [of "freshRng inp"] have c: "\<exists>g'. NewGame (freshRng inp) = Inr g' \<and>
      board g' = replicate (nat boardH) (replicate (nat boardW) 0) \<and>
      score g' = 0 \<and> lines g' = 0 \<and> level g' = 0"
    by blast
  from a b c frames_gameOver [OF assms, of inps] show ?thesis by simp
qed

text \<open>
  Left, soft drop and rotate are ignored after game over; Enter restarts.
\<close>

theorem gameOver_frozen_witness:
  "Update noInput ((zeroGame zeroRng)\<lparr>gameOver := True\<rparr>) =
     Inr ((zeroGame zeroRng)\<lparr>gameOver := True\<rparr>) \<and>
   frames [noInput\<lparr>jpLeft := True\<rparr>, noInput\<lparr>prDown := True\<rparr>, noInput\<lparr>jpX := True\<rparr>]
     ((zeroGame zeroRng)\<lparr>gameOver := True\<rparr>) = Inr ((zeroGame zeroRng)\<lparr>gameOver := True\<rparr>) \<and>
   Update (noInput\<lparr>jpEnter := True\<rparr>) ((zeroGame zeroRng)\<lparr>gameOver := True\<rparr>) =
     NewGame zeroRng"
  using gameOver_frozen [of "(zeroGame zeroRng)\<lparr>gameOver := True\<rparr>" noInput
      "[noInput\<lparr>jpLeft := True\<rparr>, noInput\<lparr>prDown := True\<rparr>, noInput\<lparr>jpX := True\<rparr>]"]
    gameOver_frozen [of "(zeroGame zeroRng)\<lparr>gameOver := True\<rparr>" "noInput\<lparr>jpEnter := True\<rparr>" "[]"]
  by (simp add: restartPressed_def noInput_def)

end
